theory Spec2Isabelle
  imports Complex_Main
begin

section \<open>JSON values\<close>

text \<open>
  A parsed document. An object lists its members in the order in which the host enumerates
  them (\<open>Object.keys\<close>, \<open>Object.values\<close>, \<open>Object.entries\<close>); the host never holds
  two members with one key, which \<open>wf_json\<close> states. A number is its numeric value.
\<close>

datatype json =
    JNull
  | JBool bool
  | JNumber rat
  | JString string
  | JArray "json list"
  | JObject "(string \<times> json) list"

fun wf_json :: "json \<Rightarrow> bool" where
  "wf_json (JArray xs) = list_all wf_json xs"
| "wf_json (JObject kvs) = (distinct (map fst kvs) \<and> list_all (\<lambda>(k, v). wf_json v) kvs)"
| "wf_json v = True"

text \<open>The nesting depth of a value: the depth of its deepest node, the root being at depth 0.\<close>

fun nesting :: "json \<Rightarrow> nat" where
  "nesting (JArray xs) = foldr (\<lambda>x m. max (Suc (nesting x)) m) xs 0"
| "nesting (JObject kvs) = foldr (\<lambda>(k, v) m. max (Suc (nesting v)) m) kvs 0"
| "nesting v = 0"

text \<open>A path segment is an object key or an array index.\<close>

datatype seg = Key string | Idx nat

section \<open>Host strings\<close>

text \<open>
  Texts are lists of 8-bit characters; a character stands for the code unit of the same
  number. \<open>charAt s i\<close> is the host's \<open>s[i]\<close>, with \<open>None\<close> for \<open>undefined\<close>;
  \<open>take\<close> and \<open>drop\<close> are \<open>substring(0, n)\<close> and \<open>substring(n)\<close>, which clamp
  at the end of the text in the same way.
\<close>

definition charAt :: "string \<Rightarrow> nat \<Rightarrow> char option" where
  "charAt s i = (if i < length s then Some (s ! i) else None)"

fun startsWith :: "string \<Rightarrow> string \<Rightarrow> bool" where
  "startsWith s [] = True"
| "startsWith [] (p # ps) = False"
| "startsWith (c # cs) (p # ps) = (c = p \<and> startsWith cs ps)"

fun includes_str :: "string \<Rightarrow> string \<Rightarrow> bool" where
  "includes_str [] pat = (pat = [])"
| "includes_str (c # cs) pat = (startsWith (c # cs) pat \<or> includes_str cs pat)"

definition is_digit :: "char \<Rightarrow> bool" where
  "is_digit c = (48 \<le> (of_char c :: nat) \<and> (of_char c :: nat) \<le> 57)"

definition parseInt :: "string \<Rightarrow> nat" where
  "parseInt ds = foldl (\<lambda>a c. 10 * a + (of_char c - 48)) 0 ds"

function show_nat :: "nat \<Rightarrow> string" where
  "show_nat n =
     (if n < 10 then [''0123456789'' ! n]
      else show_nat (n div 10) @ [''0123456789'' ! (n mod 10)])"
  by pat_completeness auto
termination
  by (relation "measure id") auto

declare show_nat.simps [simp del]

text \<open>The index that a property name denotes, if it is the decimal form of a number.\<close>

definition array_index :: "string \<Rightarrow> nat option" where
  "array_index k =
     (if k \<noteq> [] \<and> list_all is_digit k \<and> show_nat (parseInt k) = k then Some (parseInt k)
      else None)"

text \<open>The class \<open>\s\<close> of the host's regular expressions and the characters that \<open>trim\<close> removes, as far as they are 8-bit.\<close>

definition is_space :: "char \<Rightarrow> bool" where
  "is_space c = (c \<in> set [CHR 0x09, CHR 0x0A, CHR 0x0B, CHR 0x0C, CHR 0x0D, CHR 0x20, CHR 0xA0])"

definition trim :: "string \<Rightarrow> string" where
  "trim s = rev (dropWhile is_space (rev (dropWhile is_space s)))"

fun split :: "char \<Rightarrow> string \<Rightarrow> string list" where
  "split sep [] = [[]]"
| "split sep (c # cs) =
     (if c = sep then [] # split sep cs
      else (case split sep cs of p # ps \<Rightarrow> (c # p) # ps | [] \<Rightarrow> [[c]]))"

fun join :: "string \<Rightarrow> string list \<Rightarrow> string" where
  "join sep [] = []"
| "join sep [x] = x"
| "join sep (x # y # ys) = x @ sep @ join sep (y # ys)"

text \<open>Global replacement of a literal pattern, and the number of its matches, scanning left to right without overlap.\<close>

fun count_literal :: "string \<Rightarrow> string \<Rightarrow> nat" where
  "count_literal pat [] = 0"
| "count_literal pat (c # cs) =
     (if startsWith (c # cs) pat then Suc (count_literal pat (drop (length pat - 1) cs))
      else count_literal pat cs)"

fun replace_literal :: "string \<Rightarrow> string \<Rightarrow> string \<Rightarrow> string" where
  "replace_literal pat rep [] = []"
| "replace_literal pat rep (c # cs) =
     (if startsWith (c # cs) pat then rep @ replace_literal pat rep (drop (length pat - 1) cs)
      else c # replace_literal pat rep cs)"

text \<open>The pattern \<open>/,(\s*[\]}])/g\<close>: a comma, any white space, a closing bracket or brace.\<close>

definition is_closer :: "char \<Rightarrow> bool" where
  "is_closer c = (c = CHR '']'' \<or> c = CHR ''}'')"

fun trailing_comma_at :: "string \<Rightarrow> bool" where
  "trailing_comma_at [] = False"
| "trailing_comma_at (c # cs) =
     (c = CHR '','' \<and> (case dropWhile is_space cs of [] \<Rightarrow> False | d # ds \<Rightarrow> is_closer d))"

function count_trailing_commas :: "string \<Rightarrow> nat" where
  "count_trailing_commas [] = 0"
| "count_trailing_commas (c # cs) =
     (if trailing_comma_at (c # cs) then Suc (count_trailing_commas (tl (dropWhile is_space cs)))
      else count_trailing_commas cs)"
  by pat_completeness auto
termination
proof (relation "measure length", goal_cases)
  case (2 c cs)
  have "length (dropWhile is_space cs) \<le> length cs" by (rule length_dropWhile_le)
  then show ?case by simp
qed simp_all

function remove_trailing_commas :: "string \<Rightarrow> string" where
  "remove_trailing_commas [] = []"
| "remove_trailing_commas (c # cs) =
     (if trailing_comma_at (c # cs)
      then takeWhile is_space cs @ hd (dropWhile is_space cs) #
             remove_trailing_commas (tl (dropWhile is_space cs))
      else c # remove_trailing_commas cs)"
  by pat_completeness auto
termination
proof (relation "measure length", goal_cases)
  case (2 c cs)
  have "length (dropWhile is_space cs) \<le> length cs" by (rule length_dropWhile_le)
  then show ?case by simp
qed simp_all

section \<open>The repair engine (json-repair.js)\<close>

text \<open>
  The host's strict parser \<open>JSON.parse\<close> is a parameter \<open>P\<close> of everything that calls it:
  it returns the parsed value, or the message of the \<open>SyntaxError\<close> it throws.
  The list \<open>this.repairs\<close> is passed in and returned.
\<close>

type_synonym host_parser = "string \<Rightarrow> string + json"

subsection \<open>Phase A: fixCommonPatterns\<close>

definition fixCommonPatterns :: "string \<Rightarrow> string list \<Rightarrow> string \<times> string list" where
  \<open>fixCommonPatterns str log0 =
     (let n1 = count_literal ''[Object]'' str;
          (r1, log1) =
            (if n1 > 0
             then (replace_literal ''[Object]'' ''{}'' str,
                   log0 @ [''Replaced '' @ show_nat n1 @ '' instance(s) of [Object] with {}''])
             else (str, log0));
          n2 = count_literal ''[[Object]]'' r1;
          (r2, log2) =
            (if n2 > 0
             then (replace_literal ''[[Object]]'' ''[{}]'' r1,
                   log1 @ [''Replaced '' @ show_nat n2 @ '' instance(s) of [[Object]] with [{}]''])
             else (r1, log1));
          n3 = count_literal ''"Object"'' r2;
          (r3, log3) =
            (if n3 > 0
             then (replace_literal ''"Object"'' ''{}'' r2,
                   log2 @ [''Replaced '' @ show_nat n3 @ '' instance(s) of "Object" with {}''])
             else (r2, log2));
          n4 = count_trailing_commas r3
      in if n4 > 0
         then (remove_trailing_commas r3,
               log3 @ [''Removed '' @ show_nat n4 @ '' trailing comma(s)''])
         else (r3, log3))\<close>

subsection \<open>parseError\<close>

record errorInfo =
  position :: nat
  expected :: "string option"
  message :: string

text \<open>\<open>/position (\d+)/\<close>: the digits after the leftmost \<open>position\<close> that digits follow.\<close>

fun match_position :: "string \<Rightarrow> string option" where
  "match_position [] = None"
| "match_position (c # cs) =
     (if startsWith (c # cs) ''position '' \<and> takeWhile is_digit (drop 8 cs) \<noteq> []
      then Some (takeWhile is_digit (drop 8 cs))
      else match_position cs)"

text \<open>
  \<open>/Expected '(.+?)'/\<close>: after \<open>Expected '\<close>, the shortest non-empty run of characters
  other than line terminators that a quote follows.
\<close>

definition is_line_terminator :: "char \<Rightarrow> bool" where
  "is_line_terminator c = (c = CHR 0x0A \<or> c = CHR 0x0D)"

fun lazy_until_quote :: "string \<Rightarrow> string option" where
  "lazy_until_quote [] = None"
| "lazy_until_quote [c] = None"
| "lazy_until_quote (c # d # ds) =
     (if is_line_terminator c then None
      else if d = CHR 0x27 then Some [c]
      else map_option ((#) c) (lazy_until_quote (d # ds)))"

fun match_expected :: "string \<Rightarrow> string option" where
  "match_expected [] = None"
| "match_expected (c # cs) =
     (if startsWith (c # cs) (''Expected '' @ [CHR 0x27])
      then (case lazy_until_quote (drop 9 cs) of
              Some g \<Rightarrow> Some g
            | None \<Rightarrow> match_expected cs)
      else match_expected cs)"

definition parseError :: "string \<Rightarrow> errorInfo option" where
  "parseError errorMessage =
     (case match_position errorMessage of
        Some ds \<Rightarrow>
          Some \<lparr>position = parseInt ds, expected = match_expected errorMessage,
                message = errorMessage\<rparr>
      | None \<Rightarrow> None)"

subsection \<open>getContext\<close>

record scan =
  scan_inString :: bool
  scan_inObject :: int
  scan_inArray :: int
  scan_escaped :: bool

definition scan_step :: "char option \<Rightarrow> scan \<Rightarrow> scan" where
  "scan_step ch s =
     (if scan_escaped s then s\<lparr>scan_escaped := False\<rparr>
      else if ch = Some (CHR 0x5C) then s\<lparr>scan_escaped := True\<rparr>
      else if ch = Some (CHR 0x22) then s\<lparr>scan_inString := \<not> scan_inString s\<rparr>
      else if \<not> scan_inString s then
        (if ch = Some (CHR ''{'') then s\<lparr>scan_inObject := scan_inObject s + 1\<rparr>
         else if ch = Some (CHR ''}'') then s\<lparr>scan_inObject := scan_inObject s - 1\<rparr>
         else if ch = Some (CHR ''['') then s\<lparr>scan_inArray := scan_inArray s + 1\<rparr>
         else if ch = Some (CHR '']'') then s\<lparr>scan_inArray := scan_inArray s - 1\<rparr>
         else s)
      else s)"

function getContext_loop :: "string \<Rightarrow> nat \<Rightarrow> nat \<Rightarrow> scan \<Rightarrow> scan" where
  "getContext_loop str pos i s =
     (if i < pos then getContext_loop str pos (i + 1) (scan_step (charAt str i) s) else s)"
  by pat_completeness auto
termination
  by (relation "measure (\<lambda>(str, pos, i, s). pos - i)") auto

declare getContext_loop.simps [simp del]

record context_info =
  inString :: bool
  inObject :: bool
  inArray :: bool
  ctx_depth :: int

definition getContext :: "string \<Rightarrow> nat \<Rightarrow> context_info" where
  "getContext str pos =
     (let s = getContext_loop str pos 0
                \<lparr>scan_inString = False, scan_inObject = 0, scan_inArray = 0, scan_escaped = False\<rparr>
      in \<lparr>inString = scan_inString s, inObject = 0 < scan_inObject s,
          inArray = 0 < scan_inArray s, ctx_depth = scan_inObject s + scan_inArray s\<rparr>)"

subsection \<open>attemptFix\<close>

text \<open>The result \<open>{fixed: true, result, message}\<close> is \<open>Fixed result message\<close>; \<open>{fixed: false}\<close> is \<open>NotFixed\<close>.\<close>

datatype fix_result = Fixed string string | NotFixed

definition show_char :: "char option \<Rightarrow> string" where
  "show_char ch = (case ch of None \<Rightarrow> ''undefined'' | Some c \<Rightarrow> [c])"

definition attemptFix :: "string \<Rightarrow> errorInfo \<Rightarrow> fix_result" where
  "attemptFix str errorInfo =
     (let pos = position errorInfo;
          char = charAt str pos;
          context = getContext str pos
      in if includes_str (message errorInfo) (''Expected ':'' @ [CHR 0x27]) \<or>
            includes_str (message errorInfo) ''after property name''
         then Fixed (take pos str @ '':'' @ drop pos str)
                (''Added missing ':' at position '' @ show_nat pos)
         else if includes_str (message errorInfo) (''Expected ','' @ [CHR 0x27]) \<or>
                 includes_str (message errorInfo) ''after property value''
         then Fixed (take pos str @ '','' @ drop pos str)
                (''Added missing ',' at position '' @ show_nat pos)
         else if includes_str (message errorInfo) ''Unexpected token'' \<and>
                 pos > 0 \<and> charAt str (pos - 1) = char
         then Fixed (take pos str @ drop (pos + 1) str)
                (''Removed duplicate '' @ [CHR 0x27] @ show_char char @ [CHR 0x27] @
                 '' at position '' @ show_nat pos)
         else if char = Some (CHR 0x22) \<and> inString context
         then Fixed (take pos str @ [CHR 0x5C, CHR 0x22] @ drop (pos + 1) str)
                (''Escaped quote at position '' @ show_nat pos)
         else NotFixed)"

subsection \<open>Phase B: fixStructuralErrors\<close>

definition maxIterations :: nat where
  "maxIterations = 10"

function fixStructuralErrors_loop ::
  "host_parser \<Rightarrow> nat \<Rightarrow> string \<Rightarrow> string list \<Rightarrow> string \<times> string list" where
  "fixStructuralErrors_loop P iteration result log0 =
     (if iteration < maxIterations then
        (case P result of
           Inr v \<Rightarrow> (result, log0)
         | Inl msg \<Rightarrow>
             (case parseError msg of
                None \<Rightarrow> (result, log0)
              | Some errorInfo \<Rightarrow>
                  (case attemptFix result errorInfo of
                     NotFixed \<Rightarrow> (result, log0)
                   | Fixed r m \<Rightarrow> fixStructuralErrors_loop P (iteration + 1) r (log0 @ [m]))))
      else (result, log0))"
  by pat_completeness auto
termination
  by (relation "measure (\<lambda>(P, iteration, result, log0). maxIterations - iteration)") auto

declare fixStructuralErrors_loop.simps [simp del]

definition fixStructuralErrors :: "host_parser \<Rightarrow> string \<Rightarrow> string list \<Rightarrow> string \<times> string list" where
  "fixStructuralErrors P str log0 = fixStructuralErrors_loop P 0 str log0"

subsection \<open>repair\<close>

record repair_result =
  repaired :: string
  repairs :: "string list"

definition repair :: "host_parser \<Rightarrow> string \<Rightarrow> repair_result" where
  "repair P jsonString =
     (let (r1, log1) = fixCommonPatterns jsonString [];
          (r2, log2) = fixStructuralErrors P r1 log1
      in \<lparr>repaired = r2, repairs = log2\<rparr>)"

section \<open>The structural parser and the traversals (json-parser.js)\<close>

subsection \<open>parse and getErrorLine\<close>

text \<open>
  The object that \<open>parse\<close> returns is the list of its fields. \<open>FNull\<close> is the host's
  \<open>null\<close>; a field that the object literal does not have is absent from the list.
\<close>

datatype field = FBool bool | FData json | FString string | FNumber nat | FNull

text \<open>\<open>getErrorLine\<close> reads the message of the error that was caught.\<close>

definition getErrorLine :: "string \<Rightarrow> string \<Rightarrow> field" where
  "getErrorLine errorMessage jsonString =
     (case match_position errorMessage of
        Some ds \<Rightarrow> FNumber (length (split (CHR 0x0A) (take (parseInt ds) jsonString)))
      | None \<Rightarrow> FNull)"

definition parse :: "host_parser \<Rightarrow> string \<Rightarrow> (string \<times> field) list" where
  "parse P jsonString =
     (if jsonString = [] then
        [(''success'', FBool False), (''error'', FString ''Invalid input: expected a string'')]
      else
        let trimmed = trim jsonString in
        if length trimmed = 0 then
          [(''success'', FBool False), (''error'', FString ''Empty JSON string'')]
        else
          (case P trimmed of
             Inr data \<Rightarrow> [(''success'', FBool True), (''data'', FData data), (''error'', FNull)]
           | Inl errorMessage \<Rightarrow>
               [(''success'', FBool False),
                (''error'', FString (''Parse error: '' @ errorMessage)),
                (''line'', getErrorLine errorMessage jsonString)]))"

subsection \<open>getType\<close>

fun getType :: "json \<Rightarrow> string" where
  "getType JNull = ''null''"
| "getType (JArray xs) = ''array''"
| "getType (JObject kvs) = ''object''"
| "getType (JBool b) = ''boolean''"
| "getType (JNumber n) = ''number''"
| "getType (JString s) = ''string''"

subsection \<open>generateAccessPath and generateDescription\<close>

text \<open>\<open>/^[a-zA-Z_$][a-zA-Z0-9_$]*$/\<close>\<close>

definition is_ident_start :: "char \<Rightarrow> bool" where
  "is_ident_start c =
     ((97 \<le> (of_char c :: nat) \<and> (of_char c :: nat) \<le> 122) \<or>
      (65 \<le> (of_char c :: nat) \<and> (of_char c :: nat) \<le> 90) \<or>
      c = CHR ''_'' \<or> c = CHR ''$'')"

definition is_ident_char :: "char \<Rightarrow> bool" where
  "is_ident_char c = (is_ident_start c \<or> is_digit c)"

fun is_identifier :: "string \<Rightarrow> bool" where
  "is_identifier [] = False"
| "is_identifier (c # cs) = (is_ident_start c \<and> list_all is_ident_char cs)"

record notations =
  dot :: string
  bracket :: string
  optional :: string
  path_description :: string

text \<open>
  The separator of \<open>generateDescription\<close>: the literal of the source between two
  spaces, which holds the characters U+00E2, U+2020 and U+2019, in UTF-8.
\<close>

definition arrow_separator :: string where
  "arrow_separator =
     [CHR 0x20, CHR 0xC3, CHR 0xA2, CHR 0xE2, CHR 0x80, CHR 0xA0, CHR 0xE2, CHR 0x80, CHR 0x99,
      CHR 0x20]"

definition generateDescription :: "seg list \<Rightarrow> string" where
  \<open>generateDescription pathArray =
     (if length pathArray = 0 then ''Root object''
      else join arrow_separator
             (map (\<lambda>key. case key of
                      Idx n \<Rightarrow> ''element at index '' @ show_nat n
                    | Key k \<Rightarrow> ''property "'' @ k @ ''"'')
                pathArray))\<close>

definition access_step :: "seg \<Rightarrow> string \<times> string \<times> string \<Rightarrow> string \<times> string \<times> string" where
  "access_step key acc =
     (case acc of (dotNotation, bracketNotation, optionalChaining) \<Rightarrow>
        (case key of
           Idx n \<Rightarrow>
             (dotNotation @ ''['' @ show_nat n @ '']'',
              bracketNotation @ ''['' @ show_nat n @ '']'',
              optionalChaining @ ''?.['' @ show_nat n @ '']'')
         | Key k \<Rightarrow>
             if is_identifier k then
               (dotNotation @ ''.'' @ k,
                bracketNotation @ ''['' @ [CHR 0x27] @ k @ [CHR 0x27] @ '']'',
                optionalChaining @ ''?.'' @ k)
             else
               (dotNotation @ ''['' @ [CHR 0x27] @ k @ [CHR 0x27] @ '']'',
                bracketNotation @ ''['' @ [CHR 0x27] @ k @ [CHR 0x27] @ '']'',
                optionalChaining @ ''?.['' @ [CHR 0x27] @ k @ [CHR 0x27] @ '']'')))"

definition generateAccessPath :: "seg list \<Rightarrow> notations" where
  "generateAccessPath pathArray =
     (if length pathArray = 0 then
        \<lparr>dot = ''data'', bracket = ''data'', optional = ''data'', path_description = ''Root object''\<rparr>
      else
        (case fold access_step pathArray (''data'', ''data'', ''data'') of
           (dotNotation, bracketNotation, optionalChaining) \<Rightarrow>
             \<lparr>dot = dotNotation, bracket = bracketNotation, optional = optionalChaining,
              path_description = generateDescription pathArray\<rparr>))"

subsection \<open>countNodes\<close>

definition JSONParser_maxDepth :: nat where
  "JSONParser_maxDepth = 100"

text \<open>
  \<open>Object.keys\<close> of an array are its indices and \<open>obj[key]\<close> the element there; the keys of
  an object are those of its members and \<open>obj[key]\<close> is the member found under the key.
\<close>

function countNodes :: "json \<Rightarrow> nat \<Rightarrow> nat" where
  "countNodes obj depth =
     (if depth > JSONParser_maxDepth then 1
      else case obj of
        JArray xs \<Rightarrow>
          fold (\<lambda>key count. count + countNodes (xs ! key) (depth + 1)) [0..<length xs] 1
      | JObject kvs \<Rightarrow>
          fold (\<lambda>key count.
                  count + (case map_of kvs key of
                             Some v \<Rightarrow> countNodes v (depth + 1)
                           | None \<Rightarrow> 0))
            (map fst kvs) 1
      | _ \<Rightarrow> 1)"
  by pat_completeness auto
termination
proof (relation "measure (\<lambda>(obj, depth). size obj)", goal_cases)
  case 1
  show ?case by simp
next
  case (2 obj depth xs key)
  then have "xs ! key \<in> set xs" by simp
  then have "size (xs ! key) \<le> size_list size xs"
    by (rule size_list_estimation') simp
  with 2 show ?case by simp
next
  case (3 obj depth kvs key count v)
  then have "(key, v) \<in> set kvs" by (auto dest: map_of_SomeD)
  then have "size_prod (\<lambda>_. 0) size (key, v) \<le> size_list (size_prod (\<lambda>_. 0) size) kvs"
    by (rule size_list_estimation') simp
  with 3 show ?case by simp
qed

declare countNodes.simps [simp del]

subsection \<open>getStatistics\<close>

record stats =
  totalNodes :: nat
  maxDepth :: nat
  arrays :: nat
  objects :: nat
  primitives :: nat
  nulls :: nat

text \<open>The first two statements of \<open>traverse\<close>, which every node that is counted runs.\<close>

definition visit :: "nat \<Rightarrow> stats \<Rightarrow> stats" where
  "visit depth st = st\<lparr>totalNodes := totalNodes st + 1, maxDepth := max (maxDepth st) depth\<rparr>"

fun traverse :: "json \<Rightarrow> nat \<Rightarrow> stats \<Rightarrow> stats" where
  "traverse JNull depth st =
     (if depth > JSONParser_maxDepth then st
      else (visit depth st)\<lparr>nulls := nulls st + 1\<rparr>)"
| "traverse (JArray xs) depth st =
     (if depth > JSONParser_maxDepth then st
      else fold (\<lambda>item. traverse item (depth + 1)) xs
             ((visit depth st)\<lparr>arrays := arrays st + 1\<rparr>))"
| "traverse (JObject kvs) depth st =
     (if depth > JSONParser_maxDepth then st
      else fold (\<lambda>(key, val). traverse val (depth + 1)) kvs
             ((visit depth st)\<lparr>objects := objects st + 1\<rparr>))"
| "traverse obj depth st =
     (if depth > JSONParser_maxDepth then st
      else (visit depth st)\<lparr>primitives := primitives st + 1\<rparr>)"

definition getStatistics :: "json \<Rightarrow> stats" where
  "getStatistics data =
     traverse data 0
       \<lparr>totalNodes = 0, maxDepth = 0, arrays = 0, objects = 0, primitives = 0, nulls = 0\<rparr>"

subsection \<open>flatten\<close>

record entry =
  entry_path :: notations
  entry_value :: json
  entry_type :: string

text \<open>
  The inner \<open>traverse\<close> of \<open>flatten\<close>; \<open>limit\<close> is the parameter \<open>maxDepth\<close> and the
  list \<open>flattened\<close> is passed in and returned. The entries of an array are its elements
  with their indices, those of an object its members.
\<close>

function flatten_traverse :: "nat \<Rightarrow> json \<Rightarrow> seg list \<Rightarrow> nat \<Rightarrow> entry list \<Rightarrow> entry list" where
  "flatten_traverse limit obj path depth flattened =
     (if depth > limit then flattened
      else case obj of
        JArray xs \<Rightarrow>
          fold (\<lambda>(key, val). flatten_traverse limit val (path @ [Idx key]) (depth + 1))
            (zip [0..<length xs] xs) flattened
      | JObject kvs \<Rightarrow>
          fold (\<lambda>(key, val). flatten_traverse limit val (path @ [Key key]) (depth + 1))
            kvs flattened
      | _ \<Rightarrow>
          flattened @
            [\<lparr>entry_path = generateAccessPath path, entry_value = obj, entry_type = getType obj\<rparr>])"
  by pat_completeness auto
termination
proof (relation "measure (\<lambda>(limit, obj, path, depth, flattened). size obj)", goal_cases)
  case 1
  show ?case by simp
next
  case (2 limit obj path depth flattened xs kv key val)
  then have "val \<in> set xs" by (auto dest: set_zip_rightD)
  then have "size val \<le> size_list size xs"
    by (rule size_list_estimation') simp
  with 2 show ?case by simp
next
  case (3 limit obj path depth flattened kvs kv key val)
  have kv: "kv = (key, val)" using 3(4) by simp
  have "size_prod (\<lambda>_. 0) size kv \<le> size_list (size_prod (\<lambda>_. 0) size) kvs"
    using 3(3) by (rule size_list_estimation') simp
  then have "size val < size (JObject kvs)" by (simp add: kv)
  then show ?case by (simp add: 3(2))
qed

declare flatten_traverse.simps [simp del]

definition flatten_maxDepth :: nat where
  "flatten_maxDepth = 10"

definition flatten :: "json \<Rightarrow> nat \<Rightarrow> entry list" where
  "flatten data limit = flatten_traverse limit data [] 0 []"

section \<open>Paths in the visualizers (json-visualizer.js)\<close>

subsection \<open>Property access\<close>

text \<open>
  \<open>js_get v key\<close> is the host's \<open>v[key]\<close> on a value that is neither \<open>null\<close> nor
  \<open>undefined\<close>, with \<open>None\<close> for \<open>undefined\<close>. It covers the properties that a parsed
  value owns: the members of an object, the elements and the length of an array, the
  characters and the length of a string. A number key reads the property named by its
  decimal form, and a key in that form reads an index. What a value inherits from the
  host's prototypes is not a JSON value and is not covered.
\<close>

fun js_get :: "json \<Rightarrow> seg \<Rightarrow> json option" where
  "js_get (JArray xs) (Idx i) = (if i < length xs then Some (xs ! i) else None)"
| "js_get (JArray xs) (Key k) =
     (if k = ''length'' then Some (JNumber (of_nat (length xs)))
      else case array_index k of
        Some i \<Rightarrow> (if i < length xs then Some (xs ! i) else None)
      | None \<Rightarrow> None)"
| "js_get (JObject kvs) (Key k) = map_of kvs k"
| "js_get (JObject kvs) (Idx i) = map_of kvs (show_nat i)"
| "js_get (JString s) (Idx i) = (if i < length s then Some (JString [s ! i]) else None)"
| "js_get (JString s) (Key k) =
     (if k = ''length'' then Some (JNumber (of_nat (length s)))
      else case array_index k of
        Some i \<Rightarrow> (if i < length s then Some (JString [s ! i]) else None)
      | None \<Rightarrow> None)"
| "js_get v key = None"

subsection \<open>PrettierVisualizer.getValueAtPath\<close>

datatype js_error = TypeError

text \<open>
  The loop \<open>for (const key of path) current = current[key]\<close>; reading a property of
  \<open>null\<close> or \<open>undefined\<close> throws a \<open>TypeError\<close>.
\<close>

fun getValueAtPath_loop :: "json option \<Rightarrow> seg list \<Rightarrow> js_error + json option" where
  "getValueAtPath_loop current [] = Inr current"
| "getValueAtPath_loop current (key # path) =
     (case current of
        None \<Rightarrow> Inl TypeError
      | Some JNull \<Rightarrow> Inl TypeError
      | Some v \<Rightarrow> getValueAtPath_loop (js_get v key) path)"

definition getValueAtPath :: "json \<Rightarrow> seg list \<Rightarrow> js_error + json option" where
  "getValueAtPath obj path = getValueAtPath_loop (Some obj) path"

subsection \<open>The node identity of TreeVisualizer.buildTree and GraphVisualizer.extractNodesLazy\<close>

text \<open>\<open>Array.prototype.join\<close> turns each segment into a string: a key is itself, an index its decimal form.\<close>

definition seg_string :: "seg \<Rightarrow> string" where
  "seg_string s = (case s of Key k \<Rightarrow> k | Idx n \<Rightarrow> show_nat n)"

definition nodeId :: "seg list \<Rightarrow> string" where
  "nodeId path = (if length path = 0 then ''root'' else join ''.'' (map seg_string path))"

section \<open>The code helper (CodeHelper)\<close>

text \<open>
  The fields of the class. \<open>JNull\<close> is the host's \<open>null\<close>, the initial value of
  \<open>currentValue\<close> and \<open>jsonData\<close>; \<open>currentKey\<close> is a key, an index or \<open>null\<close>.
\<close>

record codeHelper =
  currentPath :: "seg list"
  currentValue :: json
  currentKey :: "seg option"
  jsonData :: json

definition update :: "codeHelper \<Rightarrow> seg list \<Rightarrow> json \<Rightarrow> seg option \<Rightarrow> json \<Rightarrow> codeHelper" where
  "update h path val key data =
     (let h1 = h\<lparr>currentPath := path, currentValue := val, currentKey := key\<rparr>
      in if data \<noteq> JNull then h1\<lparr>jsonData := data\<rparr> else h1)"

text \<open>The host's truthiness of a value, and of a key.\<close>

fun truthy :: "json \<Rightarrow> bool" where
  "truthy JNull = False"
| "truthy (JBool b) = b"
| "truthy (JNumber n) = (n \<noteq> 0)"
| "truthy (JString s) = (s \<noteq> [])"
| "truthy v = True"

fun truthy_key :: "seg option \<Rightarrow> bool" where
  "truthy_key None = False"
| "truthy_key (Some (Key k)) = (k \<noteq> [])"
| "truthy_key (Some (Idx n)) = (n \<noteq> 0)"

subsection \<open>detectArrayContext\<close>

record arrayContext =
  isInArray :: bool
  arrayPath :: "seg list"
  propertyPath :: "seg list"
  arrayData :: "json list"
  itemExample :: json

function detectArrayContext_loop :: "seg list \<Rightarrow> nat \<Rightarrow> json option \<Rightarrow> arrayContext option" where
  "detectArrayContext_loop path i current =
     (if i < length path then
        (case current of
           None \<Rightarrow> None
         | Some JNull \<Rightarrow> None
         | Some (JArray xs) \<Rightarrow>
             Some \<lparr>isInArray = True, arrayPath = take i path, propertyPath = drop (i + 1) path,
                   arrayData = xs, itemExample = (if length xs > 0 then xs ! 0 else JNull)\<rparr>
         | Some v \<Rightarrow> detectArrayContext_loop path (i + 1) (js_get v (path ! i)))
      else None)"
  by pat_completeness auto
termination
  by (relation "measure (\<lambda>(path, i, current). length path - i)") auto

declare detectArrayContext_loop.simps [simp del]

definition detectArrayContext :: "codeHelper \<Rightarrow> json \<Rightarrow> arrayContext option" where
  "detectArrayContext h data =
     (if length (currentPath h) = 0 then None
      else detectArrayContext_loop (currentPath h) 0 (Some data))"

subsection \<open>The examples\<close>

record example =
  title :: string
  code :: string
  description :: string

text \<open>The pictographs that open the titles, in UTF-8, and the line break of the code strings.\<close>

definition pic_target :: string where "pic_target = [CHR 0xF0, CHR 0x9F, CHR 0x8E, CHR 0xAF]"
definition pic_package :: string where "pic_package = [CHR 0xF0, CHR 0x9F, CHR 0x93, CHR 0xA6]"
definition pic_check :: string where "pic_check = [CHR 0xE2, CHR 0x9C, CHR 0x85]"
definition pic_shield :: string where
  "pic_shield = [CHR 0xF0, CHR 0x9F, CHR 0x9B, CHR 0xA1, CHR 0xEF, CHR 0xB8, CHR 0x8F]"
definition pic_cycle :: string where "pic_cycle = [CHR 0xF0, CHR 0x9F, CHR 0x94, CHR 0x84]"
definition pic_lens :: string where "pic_lens = [CHR 0xF0, CHR 0x9F, CHR 0x94, CHR 0x8D]"
definition pic_chart :: string where "pic_chart = [CHR 0xF0, CHR 0x9F, CHR 0x93, CHR 0x8A]"
definition pic_die :: string where "pic_die = [CHR 0xF0, CHR 0x9F, CHR 0x8E, CHR 0xB2]"
definition pic_map :: string where
  "pic_map = [CHR 0xF0, CHR 0x9F, CHR 0x97, CHR 0xBA, CHR 0xEF, CHR 0xB8, CHR 0x8F]"
definition pic_trend :: string where "pic_trend = [CHR 0xF0, CHR 0x9F, CHR 0x93, CHR 0x88]"
definition pic_shuffle :: string where "pic_shuffle = [CHR 0xF0, CHR 0x9F, CHR 0x94, CHR 0x80]"
definition pic_key :: string where "pic_key = [CHR 0xF0, CHR 0x9F, CHR 0x94, CHR 0x91]"
definition pic_clipboard :: string where "pic_clipboard = [CHR 0xF0, CHR 0x9F, CHR 0x93, CHR 0x8B]"
definition pic_page :: string where "pic_page = [CHR 0xF0, CHR 0x9F, CHR 0x93, CHR 0x84]"

definition nl :: string where "nl = [CHR 0x0A]"

definition show_int :: "int \<Rightarrow> string" where
  "show_int i = (if i < 0 then ''-'' @ show_nat (nat (- i)) else show_nat (nat i))"

definition generateRootCode :: "example list" where
  "generateRootCode =
     [\<lparr>title = pic_page @ '' Root Object'',
       code = ''const data = /* your JSON data */;'',
       description = ''Click on any key to see access examples''\<rparr>]"

definition generateArrayExamples :: "codeHelper \<Rightarrow> notations \<Rightarrow> example list" where
  "generateArrayExamples h pathInfo =
     (let arrayLength = (case currentValue h of JArray xs \<Rightarrow> length xs | _ \<Rightarrow> 0) in
      [\<lparr>title = pic_cycle @ '' Map Over Array'',
        code = ''const mapped = '' @ dot pathInfo @ ''.map(item => {'' @ nl @
               ''  // Process each item'' @ nl @ ''  return item;'' @ nl @ ''});'',
        description = ''Transform all '' @ show_nat arrayLength @ '' items''\<rparr>,
       \<lparr>title = pic_lens @ '' Filter Array'',
        code = ''const filtered = '' @ dot pathInfo @ ''.filter(item => {'' @ nl @
               ''  // Return true to keep item'' @ nl @ ''  return condition;'' @ nl @ ''});'',
        description = ''Filter items based on condition''\<rparr>,
       \<lparr>title = pic_chart @ '' Reduce Array'',
        code = ''const result = '' @ dot pathInfo @ ''.reduce((acc, item) => {'' @ nl @
               ''  // Accumulate values'' @ nl @ ''  return acc + item;'' @ nl @ ''}, 0);'',
        description = ''Aggregate array values''\<rparr>,
       \<lparr>title = pic_die @ '' Access First/Last'',
        code = ''const first = '' @ dot pathInfo @ ''[0];'' @ nl @
               ''const last = '' @ dot pathInfo @ ''['' @ show_int (int arrayLength - 1) @ ''];'',
        description = ''Get first or last element''\<rparr>])"

definition generateObjectExamples :: "codeHelper \<Rightarrow> notations \<Rightarrow> example list" where
  \<open>generateObjectExamples h pathInfo =
     (let keys = (case currentValue h of
                    JObject kvs \<Rightarrow> map fst kvs
                  | JArray xs \<Rightarrow> map show_nat [0..<length xs]
                  | JString s \<Rightarrow> map show_nat [0..<length s]
                  | _ \<Rightarrow> [])
      in if length keys > 0 then
        [\<lparr>title = pic_key @ '' Get All Keys'',
          code = ''const keys = Object.keys('' @ dot pathInfo @ '');'' @ nl @ ''// ['' @
                 join '', '' (map (\<lambda>k. ''"'' @ k @ ''"'') (take 3 keys)) @
                 (if length keys > 3 then '', ...'' else '''') @ '']'',
          description = ''Extract all '' @ show_nat (length keys) @ '' property names''\<rparr>,
         \<lparr>title = pic_clipboard @ '' Get All Values'',
          code = ''const values = Object.values('' @ dot pathInfo @ '');'',
          description = ''Extract all property values''\<rparr>,
         \<lparr>title = pic_cycle @ '' Iterate Entries'',
          code = ''Object.entries('' @ dot pathInfo @ '').forEach(([key, value]) => {'' @ nl @
                 ''  console.log(key, value);'' @ nl @ ''});'',
          description = ''Loop through key-value pairs''\<rparr>]
      else [])\<close>

definition generateDestructuringExample :: "codeHelper \<Rightarrow> notations \<Rightarrow> example" where
  "generateDestructuringExample h pathInfo =
     (let parentPath = butlast (currentPath h);
          parentPathInfo = generateAccessPath parentPath;
          key = last (currentPath h)
      in \<lparr>title = pic_package @ '' Destructuring'',
          code = ''const { '' @ seg_string key @ '' } = '' @ dot parentPathInfo @ '';'',
          description = ''Extract property directly''\<rparr>)"

subsection \<open>generatePropertyInArrayExamples\<close>

text \<open>
  \<open>numToString\<close> is the host's conversion of a number to a string, as a template literal
  applies it to \<open>exampleValue\<close>.
\<close>

definition property_access :: "seg \<Rightarrow> string" where
  \<open>property_access p =
     (if is_identifier (seg_string p) then ''.'' @ seg_string p
      else ''["'' @ seg_string p @ ''"]'')\<close>

definition generatePropertyInArrayExamples ::
  "codeHelper \<Rightarrow> (rat \<Rightarrow> string) \<Rightarrow> arrayContext \<Rightarrow> json \<Rightarrow> example list" where
  \<open>generatePropertyInArrayExamples h numToString ctx data =
     (let arrayPathInfo = generateAccessPath (arrayPath ctx);
          arrayAccessPath = (if dot arrayPathInfo = [] then ''data'' else dot arrayPathInfo);
          propertyAccessPath =
            (if length (propertyPath ctx) > 0
             then join [] (map property_access (propertyPath ctx)) else []);
          propertyName =
            (if truthy_key (currentKey h) then seg_string (the (currentKey h))
             else seg_string (last (propertyPath ctx)));
          itemVar = ''item'';
          fullPropertyAccess = itemVar @ propertyAccessPath;
          isNumeric = (case currentValue h of JNumber n \<Rightarrow> True | _ \<Rightarrow> False);
          isString = (case currentValue h of JString s \<Rightarrow> True | _ \<Rightarrow> False);
          isBoolean = (case currentValue h of JBool b \<Rightarrow> True | _ \<Rightarrow> False);
          numberExample =
            (case currentValue h of
               JNumber n \<Rightarrow> numToString (if n \<noteq> 0 then n else 10)
             | _ \<Rightarrow> []);
          stringExample =
            (case currentValue h of
               JString s \<Rightarrow> (if s \<noteq> [] then ''"'' @ s @ ''"'' else ''"example"'')
             | _ \<Rightarrow> []);
          indexExample = (0 :: nat)
      in
      [\<lparr>title = pic_target @ '' Direct Access'',
        code = ''const value = '' @ arrayAccessPath @ ''['' @ show_nat indexExample @ '']'' @
               propertyAccessPath @ '';'',
        description = ''Access '' @ propertyName @ '' from specific item''\<rparr>,
       \<lparr>title = pic_map @ '' Map All Values'',
        code = ''const allValues = '' @ arrayAccessPath @ ''.map('' @ itemVar @ '' => '' @
               fullPropertyAccess @ '');'',
        description = ''Get array of all '' @ propertyName @ '' values''\<rparr>,
       (if isNumeric then
          \<lparr>title = pic_lens @ '' Filter by Property'',
           code = ''const filtered = '' @ arrayAccessPath @ ''.filter('' @ itemVar @ '' => '' @
                  fullPropertyAccess @ '' > '' @ numberExample @ '');'',
           description = ''Filter items where '' @ propertyName @ '' > '' @ numberExample\<rparr>
        else if isString then
          \<lparr>title = pic_lens @ '' Filter by Property'',
           code = ''const filtered = '' @ arrayAccessPath @ ''.filter('' @ itemVar @ '' => '' @
                  fullPropertyAccess @ '' === '' @ stringExample @ '');'',
           description = ''Filter items where '' @ propertyName @ '' matches''\<rparr>
        else if isBoolean then
          \<lparr>title = pic_lens @ '' Filter by Property'',
           code = ''const filtered = '' @ arrayAccessPath @ ''.filter('' @ itemVar @ '' => '' @
                  fullPropertyAccess @ '');'',
           description = ''Filter items where '' @ propertyName @ '' is true''\<rparr>
        else
          \<lparr>title = pic_lens @ '' Filter by Property'',
           code = ''const filtered = '' @ arrayAccessPath @ ''.filter('' @ itemVar @ '' => '' @
                  fullPropertyAccess @ '' !== null);'',
           description = ''Filter items where '' @ propertyName @ '' exists''\<rparr>),
       \<lparr>title = pic_cycle @ '' forEach Iteration'',
        code = arrayAccessPath @ ''.forEach('' @ itemVar @ '' => {'' @ nl @
               ''  console.log('' @ fullPropertyAccess @ '');'' @ nl @ ''});'',
        description = ''Loop through and access '' @ propertyName\<rparr>,
       (if isNumeric then
          \<lparr>title = pic_die @ '' Find First Match'',
           code = ''const found = '' @ arrayAccessPath @ ''.find('' @ itemVar @ '' => '' @
                  fullPropertyAccess @ '' === '' @ numberExample @ '');'',
           description = ''Find first item where '' @ propertyName @ '' equals '' @ numberExample\<rparr>
        else if isString then
          \<lparr>title = pic_die @ '' Find First Match'',
           code = ''const found = '' @ arrayAccessPath @ ''.find('' @ itemVar @ '' => '' @
                  fullPropertyAccess @ ''.includes("search"));'',
           description = ''Find first item where '' @ propertyName @ '' contains text''\<rparr>
        else
          \<lparr>title = pic_die @ '' Find First Match'',
           code = ''const found = '' @ arrayAccessPath @ ''.find('' @ itemVar @ '' => '' @
                  fullPropertyAccess @ '');'',
           description = ''Find first item where '' @ propertyName @ '' is truthy''\<rparr>)] @
      (if isNumeric then
         [\<lparr>title = pic_chart @ '' Sum/Aggregate'',
           code = ''const total = '' @ arrayAccessPath @ ''.reduce((sum, '' @ itemVar @
                  '') => sum + '' @ fullPropertyAccess @ '', 0);'',
           description = ''Calculate total of all '' @ propertyName @ '' values''\<rparr>,
          \<lparr>title = pic_trend @ '' Min/Max Values'',
           code = ''const values = '' @ arrayAccessPath @ ''.map('' @ itemVar @ '' => '' @
                  fullPropertyAccess @ '');'' @ nl @ ''const min = Math.min(...values);'' @ nl @
                  ''const max = Math.max(...values);'',
           description = ''Find minimum and maximum '' @ propertyName\<rparr>]
       else []) @
      (if isNumeric then
         [\<lparr>title = pic_check @ '' Check Conditions'',
           code = ''const hasAny = '' @ arrayAccessPath @ ''.some('' @ itemVar @ '' => '' @
                  fullPropertyAccess @ '' > '' @ numberExample @ '');'' @ nl @
                  ''const hasAll = '' @ arrayAccessPath @ ''.every('' @ itemVar @ '' => '' @
                  fullPropertyAccess @ '' > 0);'',
           description = ''Check if some/all items meet condition''\<rparr>]
       else if isBoolean then
         [\<lparr>title = pic_check @ '' Check Conditions'',
           code = ''const hasAny = '' @ arrayAccessPath @ ''.some('' @ itemVar @ '' => '' @
                  fullPropertyAccess @ '');'' @ nl @
                  ''const hasAll = '' @ arrayAccessPath @ ''.every('' @ itemVar @ '' => '' @
                  fullPropertyAccess @ '');'',
           description = ''Check if some/all '' @ propertyName @ '' are true''\<rparr>]
       else []) @
      (if isNumeric then
         [\<lparr>title = pic_shuffle @ '' Sort by Property'',
           code = ''const sorted = [...'' @ arrayAccessPath @ ''].sort((a, b) => a'' @
                  propertyAccessPath @ '' - b'' @ propertyAccessPath @ '');'',
           description = ''Sort items by '' @ propertyName @ '' (ascending)''\<rparr>]
       else if isString then
         [\<lparr>title = pic_shuffle @ '' Sort by Property'',
           code = ''const sorted = [...'' @ arrayAccessPath @ ''].sort((a, b) => '' @ nl @ ''  a'' @
                  propertyAccessPath @ ''.localeCompare(b'' @ propertyAccessPath @ '')'' @ nl @ '');'',
           description = ''Sort items by '' @ propertyName @ '' alphabetically''\<rparr>]
       else []))\<close>

subsection \<open>generateCode\<close>

definition generateCode :: "codeHelper \<Rightarrow> (rat \<Rightarrow> string) \<Rightarrow> json \<Rightarrow> example list" where
  "generateCode h numToString data =
     (if length (currentPath h) = 0 then generateRootCode
      else
        let arrayContext = (if truthy data then detectArrayContext h data else None) in
        if arrayContext \<noteq> None \<and> length (propertyPath (the arrayContext)) > 0
        then generatePropertyInArrayExamples h numToString (the arrayContext) data
        else
          let pathInfo = generateAccessPath (currentPath h);
              valueType = getType (currentValue h)
          in
          [\<lparr>title = pic_target @ '' Dot Notation'',
            code = ''const value = '' @ dot pathInfo @ '';'',
            description = ''Standard JavaScript property access''\<rparr>,
           \<lparr>title = pic_package @ '' Bracket Notation'',
            code = ''const value = '' @ bracket pathInfo @ '';'',
            description = ''Safe for keys with special characters''\<rparr>,
           \<lparr>title = pic_check @ '' Optional Chaining (ES2020)'',
            code = ''const value = '' @ optional pathInfo @ '';'',
            description = ''Prevents errors if path doesn't exist''\<rparr>] @
          (if valueType = ''array'' then generateArrayExamples h pathInfo
           else if valueType = ''object'' then generateObjectExamples h pathInfo
           else []) @
          (if length (currentPath h) > 1 then [generateDestructuringExample h pathInfo] else []) @
          [\<lparr>title = pic_shield @ '' With Default Value'',
            code = ''const value = '' @ optional pathInfo @ '' ?? '' @ [CHR 0x27] @ ''default'' @
                   [CHR 0x27] @ '';'',
            description = ''Provide fallback if undefined/null''\<rparr>])"

section \<open>A reference host parser\<close>

text \<open>
  \<open>JSON_parse\<close> stands for the host's \<open>JSON.parse\<close> where a statement needs a concrete
  host: it accepts the JSON grammar and builds the value as the host does (a repeated key
  keeps its place and takes the last value; keys that are indices come first, in
  ascending order). A failure reports the first character that cannot continue a JSON
  text, in the classic wording of V8, the one \<open>parseError\<close> quotes:
  \<open>Unexpected token X in JSON at position Y\<close>, with \<open>number\<close> or \<open>string\<close> in the place
  of the token where one starts there, and \<open>Unexpected end of JSON input\<close> at the end.
  Numbers are exact; an escape \<open>\u\<close> beyond the 8-bit characters is not covered.
  The statements that hold for every host take the host as the parameter \<open>P\<close> instead.
\<close>

definition json_ws :: "char \<Rightarrow> bool" where
  "json_ws c = (c = CHR 0x20 \<or> c = CHR 0x09 \<or> c = CHR 0x0A \<or> c = CHR 0x0D)"

definition skip_ws :: "string \<Rightarrow> string" where
  "skip_ws s = dropWhile json_ws s"

definition unexpected :: "nat \<Rightarrow> string \<Rightarrow> string" where
  "unexpected n rest =
     (case rest of
        [] \<Rightarrow> ''Unexpected end of JSON input''
      | c # cs \<Rightarrow>
          (if c = CHR 0x22 then ''Unexpected string''
           else if c = CHR ''-'' \<or> is_digit c then ''Unexpected number''
           else ''Unexpected token '' @ [c]) @
          '' in JSON at position '' @ show_nat (n - length rest))"

fun scan_literal :: "nat \<Rightarrow> string \<Rightarrow> string \<Rightarrow> string + string" where
  "scan_literal n [] rest = Inr rest"
| "scan_literal n (l # ls) [] = Inl (unexpected n [])"
| "scan_literal n (l # ls) (c # cs) =
     (if c = l then scan_literal n ls cs else Inl (unexpected n (c # cs)))"

definition hex_val :: "char \<Rightarrow> nat option" where
  "hex_val c =
     (let k = (of_char c :: nat) in
      if 48 \<le> k \<and> k \<le> 57 then Some (k - 48)
      else if 65 \<le> k \<and> k \<le> 70 then Some (k - 55)
      else if 97 \<le> k \<and> k \<le> 102 then Some (k - 87)
      else None)"

definition char_of_hex :: "nat \<Rightarrow> nat \<Rightarrow> char" where
  "char_of_hex hi lo =
     Char (odd lo) (odd (lo div 2)) (odd (lo div 4)) (odd (lo div 8))
          (odd hi) (odd (hi div 2)) (odd (hi div 4)) (odd (hi div 8))"

definition simple_escape :: "char \<Rightarrow> char option" where
  "simple_escape e =
     (if e = CHR 0x22 then Some (CHR 0x22)
      else if e = CHR 0x5C then Some (CHR 0x5C)
      else if e = CHR ''/'' then Some (CHR ''/'')
      else if e = CHR ''b'' then Some (CHR 0x08)
      else if e = CHR ''f'' then Some (CHR 0x0C)
      else if e = CHR ''n'' then Some (CHR 0x0A)
      else if e = CHR ''r'' then Some (CHR 0x0D)
      else if e = CHR ''t'' then Some (CHR 0x09)
      else None)"

text \<open>
  The four digits of an escape \<open>\u\<close>: the character, or the rest of the text from the
  first character that is no digit (empty when the code is beyond the 8-bit characters).
\<close>

definition scan_hex4 :: "string \<Rightarrow> string + char" where
  "scan_hex4 s =
     (let hs = takeWhile (\<lambda>c. hex_val c \<noteq> None) (take 4 s) in
      if length hs = 4 then
        (if hex_val (hs ! 0) = Some 0 \<and> hex_val (hs ! 1) = Some 0
         then Inr (char_of_hex (the (hex_val (hs ! 2))) (the (hex_val (hs ! 3))))
         else Inl [])
      else Inl (drop (length hs) s))"

function scan_string :: "nat \<Rightarrow> string \<Rightarrow> string \<Rightarrow> string + (string \<times> string)" where
  "scan_string n acc [] = Inl (unexpected n [])"
| "scan_string n acc (c # cs) =
     (if c = CHR 0x22 then Inr (acc, cs)
      else if (of_char c :: nat) < 32 then Inl (unexpected n (c # cs))
      else if c = CHR 0x5C then
        (case cs of
           [] \<Rightarrow> Inl (unexpected n [])
         | e # es \<Rightarrow>
             (case simple_escape e of
                Some x \<Rightarrow> scan_string n (acc @ [x]) es
              | None \<Rightarrow>
                  if e = CHR ''u'' then
                    (case scan_hex4 es of
                       Inr x \<Rightarrow> scan_string n (acc @ [x]) (drop 4 es)
                     | Inl bad \<Rightarrow>
                         if bad = [] \<and> length es \<ge> 4
                         then Inl ''Escape beyond the 8-bit characters''
                         else Inl (unexpected n bad))
                  else Inl (unexpected n (e # es))))
      else scan_string n (acc @ [c]) cs)"
  by pat_completeness auto
termination
  by (relation "measure (\<lambda>(n, acc, s). length s)") auto

definition scan_number :: "nat \<Rightarrow> string \<Rightarrow> string + (rat \<times> string)" where
  "scan_number n s =
     (let negative = (case s of c # cs \<Rightarrow> c = CHR ''-'' | [] \<Rightarrow> False);
          r0 = (if negative then tl s else s);
          ds = takeWhile is_digit r0;
          r1 = dropWhile is_digit r0
      in if ds = [] then Inl (unexpected n r0)
         else if hd ds = CHR ''0'' \<and> length ds > 1 then Inl (unexpected n (tl r0))
         else
           let has_frac = (case r1 of c # cs \<Rightarrow> c = CHR ''.'' | [] \<Rightarrow> False);
               fs = (if has_frac then takeWhile is_digit (tl r1) else []);
               r2 = (if has_frac then dropWhile is_digit (tl r1) else r1)
           in if has_frac \<and> fs = [] then Inl (unexpected n (tl r1))
              else
                let has_exp = (case r2 of c # cs \<Rightarrow> c = CHR ''e'' \<or> c = CHR ''E'' | [] \<Rightarrow> False);
                    r3 = (if has_exp then tl r2 else r2);
                    exp_sign = (case r3 of c # cs \<Rightarrow> has_exp \<and> (c = CHR ''+'' \<or> c = CHR ''-'')
                                | [] \<Rightarrow> False);
                    exp_negative = (case r3 of c # cs \<Rightarrow> exp_sign \<and> c = CHR ''-'' | [] \<Rightarrow> False);
                    r4 = (if exp_sign then tl r3 else r3);
                    es = (if has_exp then takeWhile is_digit r4 else []);
                    r5 = (if has_exp then dropWhile is_digit r4 else r2)
                in if has_exp \<and> es = [] then Inl (unexpected n r4)
                   else
                     let mantissa = (of_nat (parseInt (ds @ fs)) :: rat) / 10 ^ length fs;
                         scaled = (if exp_negative then mantissa / 10 ^ parseInt es
                                   else mantissa * 10 ^ parseInt es)
                     in Inr (if negative then - scaled else scaled, r5))"

text \<open>Adding a member to an object under construction, in the host's order of enumeration.\<close>

fun insert_index :: "nat \<Rightarrow> string \<Rightarrow> json \<Rightarrow> (string \<times> json) list \<Rightarrow> (string \<times> json) list" where
  "insert_index i k v [] = [(k, v)]"
| "insert_index i k v ((k', v') # kvs) =
     (case array_index k' of
        Some j \<Rightarrow> (if j < i then (k', v') # insert_index i k v kvs else (k, v) # (k', v') # kvs)
      | None \<Rightarrow> (k, v) # (k', v') # kvs)"

definition obj_put :: "(string \<times> json) list \<Rightarrow> string \<Rightarrow> json \<Rightarrow> (string \<times> json) list" where
  "obj_put kvs k v =
     (if k \<in> set (map fst kvs) then map (\<lambda>(k', v'). if k' = k then (k', v) else (k', v')) kvs
      else case array_index k of
        Some i \<Rightarrow> insert_index i k v kvs
      | None \<Rightarrow> kvs @ [(k, v)])"

function parse_value :: "nat \<Rightarrow> nat \<Rightarrow> string \<Rightarrow> string + (json \<times> string)"
  and parse_elements :: "nat \<Rightarrow> nat \<Rightarrow> json list \<Rightarrow> string \<Rightarrow> string + (json \<times> string)"
  and parse_members :: "nat \<Rightarrow> nat \<Rightarrow> (string \<times> json) list \<Rightarrow> string \<Rightarrow> string + (json \<times> string)"
where
  "parse_value fuel n s =
     (if fuel = 0 then Inl ''Maximum call stack size exceeded''
      else case skip_ws s of
        [] \<Rightarrow> Inl (unexpected n [])
      | c # cs \<Rightarrow>
          if c = CHR 0x22 then
            (case scan_string n [] cs of
               Inl m \<Rightarrow> Inl m
             | Inr (str, r) \<Rightarrow> Inr (JString str, r))
          else if c = CHR ''-'' \<or> is_digit c then
            (case scan_number n (c # cs) of
               Inl m \<Rightarrow> Inl m
             | Inr (x, r) \<Rightarrow> Inr (JNumber x, r))
          else if c = CHR ''t'' then
            (case scan_literal n ''true'' (c # cs) of
               Inl m \<Rightarrow> Inl m
             | Inr r \<Rightarrow> Inr (JBool True, r))
          else if c = CHR ''f'' then
            (case scan_literal n ''false'' (c # cs) of
               Inl m \<Rightarrow> Inl m
             | Inr r \<Rightarrow> Inr (JBool False, r))
          else if c = CHR ''n'' then
            (case scan_literal n ''null'' (c # cs) of
               Inl m \<Rightarrow> Inl m
             | Inr r \<Rightarrow> Inr (JNull, r))
          else if c = CHR ''['' then
            (case skip_ws cs of
               [] \<Rightarrow> Inl (unexpected n [])
             | d # ds \<Rightarrow>
                 if d = CHR '']'' then Inr (JArray [], ds)
                 else parse_elements (fuel - 1) n [] cs)
          else if c = CHR ''{'' then
            (case skip_ws cs of
               [] \<Rightarrow> Inl (unexpected n [])
             | d # ds \<Rightarrow>
                 if d = CHR ''}'' then Inr (JObject [], ds)
                 else parse_members (fuel - 1) n [] cs)
          else Inl (unexpected n (c # cs)))"
| "parse_elements fuel n acc s =
     (if fuel = 0 then Inl ''Maximum call stack size exceeded''
      else case parse_value (fuel - 1) n s of
        Inl m \<Rightarrow> Inl m
      | Inr (v, r) \<Rightarrow>
          (case skip_ws r of
             [] \<Rightarrow> Inl (unexpected n [])
           | c # cs \<Rightarrow>
               if c = CHR '','' then parse_elements (fuel - 1) n (acc @ [v]) cs
               else if c = CHR '']'' then Inr (JArray (acc @ [v]), cs)
               else Inl (unexpected n (c # cs))))"
| "parse_members fuel n acc s =
     (if fuel = 0 then Inl ''Maximum call stack size exceeded''
      else case skip_ws s of
        [] \<Rightarrow> Inl (unexpected n [])
      | q # qs \<Rightarrow>
          if q \<noteq> CHR 0x22 then Inl (unexpected n (q # qs))
          else
            (case scan_string n [] qs of
               Inl m \<Rightarrow> Inl m
             | Inr (k, r) \<Rightarrow>
                 (case skip_ws r of
                    [] \<Rightarrow> Inl (unexpected n [])
                  | c # cs \<Rightarrow>
                      if c \<noteq> CHR '':'' then Inl (unexpected n (c # cs))
                      else
                        (case parse_value (fuel - 1) n cs of
                           Inl m \<Rightarrow> Inl m
                         | Inr (v, r') \<Rightarrow>
                             (case skip_ws r' of
                                [] \<Rightarrow> Inl (unexpected n [])
                              | d # ds \<Rightarrow>
                                  if d = CHR '','' then parse_members (fuel - 1) n (obj_put acc k v) ds
                                  else if d = CHR ''}'' then Inr (JObject (obj_put acc k v), ds)
                                  else Inl (unexpected n (d # ds)))))))"

  by pat_completeness auto
termination
  by (relation "measure (case_sum (\<lambda>(fuel, n, s). fuel)
                  (case_sum (\<lambda>(fuel, n, acc, s). fuel) (\<lambda>(fuel, n, acc, s). fuel)))") auto

declare parse_value.simps [simp del] parse_elements.simps [simp del] parse_members.simps [simp del]

definition JSON_parse :: host_parser where
  "JSON_parse text =
     (let n = length text in
      case parse_value (2 * n + 2) n text of
        Inl m \<Rightarrow> Inl m
      | Inr (v, r) \<Rightarrow>
          (case skip_ws r of
             [] \<Rightarrow> Inr v
           | c # cs \<Rightarrow> Inl (unexpected n (c # cs))))"

text \<open>
  The host's conversion of a number to a string, where a statement needs a concrete one:
  the decimal form, which is the host's for the integers below \<open>10\<^sup>2\<^sup>1\<close> in absolute value.
\<close>

definition Number_toString :: "rat \<Rightarrow> string" where
  "Number_toString r = show_int \<lfloor>r\<rfloor>"

section \<open>Notions used in the statements\<close>

text \<open>The number of nodes of a value: the value itself and all the values nested in it.\<close>

fun nodes :: "json \<Rightarrow> nat" where
  "nodes (JArray xs) = Suc (sum_list (map nodes xs))"
| "nodes (JObject kvs) = Suc (sum_list (map (\<lambda>(k, v). nodes v) kvs))"
| "nodes v = 1"

text \<open>A path none of whose segments, as strings, contains the separator of \<open>nodeId\<close>.\<close>

definition dot_free :: "seg list \<Rightarrow> bool" where
  "dot_free path = list_all (\<lambda>s. CHR ''.'' \<notin> set (seg_string s)) path"

text \<open>The leaves of a value, the values that are neither arrays nor objects, in document order.\<close>

fun leaves :: "json \<Rightarrow> json list" where
  "leaves (JArray xs) = concat (map leaves xs)"
| "leaves (JObject kvs) = concat (map (\<lambda>(k, v). leaves v) kvs)"
| "leaves v = [v]"

text \<open>
  Single-character edits: \<open>r\<close> is \<open>s\<close> with the character \<open>c\<close> inserted at \<open>pos\<close>, and
  \<open>r\<close> is \<open>s\<close> without its character at \<open>pos\<close>; the characters before and after are
  those of \<open>s\<close>.
\<close>

definition inserted_at :: "char \<Rightarrow> nat \<Rightarrow> string \<Rightarrow> string \<Rightarrow> bool" where
  "inserted_at c pos s r =
     (pos \<le> length s \<and> length r = length s + 1 \<and> take pos r = take pos s \<and>
      r ! pos = c \<and> drop (pos + 1) r = drop pos s)"

definition deleted_at :: "nat \<Rightarrow> string \<Rightarrow> string \<Rightarrow> bool" where
  "deleted_at pos s r =
     (pos < length s \<and> length r + 1 = length s \<and> take pos r = take pos s \<and>
      drop pos r = drop (pos + 1) s)"

text \<open>The four strategies of Phase B, as the specification words the cases in which they apply.\<close>

definition missing_colon :: "errorInfo \<Rightarrow> bool" where
  "missing_colon e =
     (includes_str (message e) (''Expected ':'' @ [CHR 0x27]) \<or>
      includes_str (message e) ''after property name'')"

definition missing_comma :: "errorInfo \<Rightarrow> bool" where
  "missing_comma e =
     (includes_str (message e) (''Expected ','' @ [CHR 0x27]) \<or>
      includes_str (message e) ''after property value'')"

definition duplicate_char :: "string \<Rightarrow> errorInfo \<Rightarrow> bool" where
  "duplicate_char s e =
     (includes_str (message e) ''Unexpected token'' \<and> 0 < position e \<and>
      charAt s (position e - 1) = charAt s (position e))"

text \<open>
  A walk over a text that tells whether its end is inside an open string: a backslash
  takes the character after it along, and every other double quote opens or closes.
\<close>

fun open_string :: "bool \<Rightarrow> string \<Rightarrow> bool" where
  "open_string b [] = b"
| "open_string b [c] = (if c = CHR 0x22 then \<not> b else b)"
| "open_string b (c # d # cs) =
     (if c = CHR 0x5C then open_string b cs
      else if c = CHR 0x22 then open_string (\<not> b) (d # cs)
      else open_string b (d # cs))"

definition unescaped_quote :: "string \<Rightarrow> errorInfo \<Rightarrow> bool" where
  "unescaped_quote s e =
     (charAt s (position e) = Some (CHR 0x22) \<and> open_string False (take (position e) s))"

text \<open>
  A run of Phase B: \<open>edit_chain P s msgs t\<close> holds when the texts from \<open>s\<close> to \<open>t\<close> are
  linked by edits, each applied to a text that the host rejects with an offset and each
  logged as the next message of \<open>msgs\<close>. Phase B has nothing to do at \<open>t\<close> when the host
  accepts it, or reports no offset, or no strategy matches.
\<close>

fun edit_chain :: "host_parser \<Rightarrow> string \<Rightarrow> string list \<Rightarrow> string \<Rightarrow> bool" where
  "edit_chain P s [] t = (t = s)"
| "edit_chain P s (m # ms) t =
     (case P s of
        Inr v \<Rightarrow> False
      | Inl msg \<Rightarrow>
          (case parseError msg of
             None \<Rightarrow> False
           | Some e \<Rightarrow>
               (case attemptFix s e of
                  NotFixed \<Rightarrow> False
                | Fixed r m' \<Rightarrow> m' = m \<and> edit_chain P r ms t)))"

definition stops_at :: "host_parser \<Rightarrow> string \<Rightarrow> bool" where
  "stops_at P t =
     (case P t of
        Inr v \<Rightarrow> True
      | Inl msg \<Rightarrow>
          (case parseError msg of
             None \<Rightarrow> True
           | Some e \<Rightarrow> attemptFix t e = NotFixed))"

text \<open>No pattern of Phase A occurs in a text.\<close>

fun has_trailing_comma :: "string \<Rightarrow> bool" where
  "has_trailing_comma [] = False"
| "has_trailing_comma (c # cs) = (trailing_comma_at (c # cs) \<or> has_trailing_comma cs)"

definition phaseA_no_match :: "string \<Rightarrow> bool" where
  \<open>phaseA_no_match text =
     (\<not> includes_str text ''[Object]'' \<and> \<not> includes_str text ''[[Object]]'' \<and>
      \<not> includes_str text ''"Object"'' \<and> \<not> has_trailing_comma text)\<close>

text \<open>A text without every comma that a closing bracket or brace follows, white space ignored.\<close>

fun without_trailing_commas :: "string \<Rightarrow> string" where
  "without_trailing_commas [] = []"
| "without_trailing_commas (c # cs) =
     (if trailing_comma_at (c # cs) then without_trailing_commas cs
      else c # without_trailing_commas cs)"

text \<open>A value that is neither an array nor an object leads to no array.\<close>

fun is_container :: "json \<Rightarrow> bool" where
  "is_container (JArray xs) = True"
| "is_container (JObject kvs) = True"
| "is_container v = False"

text \<open>A path that leads to an array in a document.\<close>

definition is_array_result :: "js_error + json option \<Rightarrow> bool" where
  "is_array_result r = (case r of Inr (Some (JArray ys)) \<Rightarrow> True | _ \<Rightarrow> False)"

definition reaches_array :: "json \<Rightarrow> seg list \<Rightarrow> bool" where
  "reaches_array doc p = is_array_result (getValueAtPath doc p)"

section \<open>Node counts: countNodes and getStatistics\<close>

lemma nesting_elem: "x \<in> set xs \<Longrightarrow> Suc (nesting x) \<le> nesting (JArray xs)"
  by (induction xs) auto

lemma nesting_member: "(k, v) \<in> set kvs \<Longrightarrow> Suc (nesting v) \<le> nesting (JObject kvs)"
  by (induction kvs) auto

lemma fold_measure:
  assumes "\<And>x st. x \<in> set xs \<Longrightarrow> m (f x st) = m st + g x"
  shows "m (fold f xs st) = (m st :: nat) + sum_list (map g xs)"
  using assms by (induction xs arbitrary: st) (simp_all add: add.assoc)

lemma traverse_totalNodes:
  "depth + nesting v \<le> JSONParser_maxDepth \<Longrightarrow>
   totalNodes (traverse v depth st) = totalNodes st + nodes v"
proof (induction v arbitrary: depth st)
  case (JArray xs)
  have "totalNodes (fold (\<lambda>item. traverse item (depth + 1)) xs st') =
        totalNodes st' + sum_list (map nodes xs)" for st'
  proof (rule fold_measure)
    fix x st'' assume x: "x \<in> set xs"
    from nesting_elem [OF x] JArray.prems have "(depth + 1) + nesting x \<le> JSONParser_maxDepth"
      by simp
    then show "totalNodes (traverse x (depth + 1) st'') = totalNodes st'' + nodes x"
      by (rule JArray.IH [OF x])
  qed
  with JArray.prems show ?case by (simp add: visit_def)
next
  case (JObject kvs)
  have "totalNodes (fold (\<lambda>(key, val). traverse val (depth + 1)) kvs st') =
        totalNodes st' + sum_list (map (\<lambda>(k, v). nodes v) kvs)" for st'
  proof (rule fold_measure)
    fix x st'' assume x: "x \<in> set kvs"
    obtain k v where kv: "x = (k, v)" by (cases x)
    from x kv nesting_member [of k v kvs] JObject.prems
    have "(depth + 1) + nesting v \<le> JSONParser_maxDepth" by simp
    with x kv have "totalNodes (traverse v (depth + 1) st'') = totalNodes st'' + nodes v"
      by (intro JObject.IH [of x v]) auto
    with kv show "totalNodes ((case x of (key, val) \<Rightarrow> traverse val (depth + 1)) st'') =
        totalNodes st'' + (case x of (k, v) \<Rightarrow> nodes v)" by simp
  qed
  with JObject.prems show ?case by (simp add: visit_def)
qed (simp_all add: visit_def)
lemma fold_count:
  assumes "\<And>x. x \<in> set xs \<Longrightarrow> f x = g x"
  shows "fold (\<lambda>x count. count + f x) xs (c::nat) = c + sum_list (map g xs)"
  using assms
proof (induction xs arbitrary: c)
  case Nil
  show ?case by simp
next
  case (Cons a xs)
  have a: "f a = g a" by (rule Cons.prems) simp
  have "fold (\<lambda>x count. count + f x) xs (c + f a) = (c + f a) + sum_list (map g xs)"
    by (rule Cons.IH) (simp add: Cons.prems)
  with a show ?case by simp
qed

lemma map_nth_upt: "map (\<lambda>i. f (xs ! i)) [0..<length xs] = map f xs"
proof -
  have "map (\<lambda>i. f (xs ! i)) [0..<length xs] = map f (map ((!) xs) [0..<length xs])"
    by (simp add: comp_def)
  then show ?thesis by (simp only: map_nth)
qed

lemma countNodes_nodes:
  "depth + nesting v \<le> JSONParser_maxDepth \<Longrightarrow> wf_json v \<Longrightarrow> countNodes v depth = nodes v"
proof (induction v arbitrary: depth)
  case (JArray xs)
  have "fold (\<lambda>key count. count + countNodes (xs ! key) (depth + 1)) [0..<length xs] 1 =
        1 + sum_list (map (\<lambda>i. nodes (xs ! i)) [0..<length xs])"
  proof (rule fold_count)
    fix i assume "i \<in> set [0..<length xs]"
    then have x: "xs ! i \<in> set xs" by simp
    from nesting_elem [OF x] JArray.prems
    have "(depth + 1) + nesting (xs ! i) \<le> JSONParser_maxDepth" by simp
    moreover from x JArray.prems have "wf_json (xs ! i)" by (simp add: list_all_iff)
    ultimately show "countNodes (xs ! i) (depth + 1) = nodes (xs ! i)"
      by (rule JArray.IH [OF x])
  qed
  with JArray.prems show ?case
    by (simp add: countNodes.simps [of "JArray xs"] map_nth_upt)
next
  case (JObject kvs)
  have d: "distinct (map fst kvs)" using JObject.prems by simp
  let ?h = "\<lambda>key. case map_of kvs key of Some v \<Rightarrow> nodes v | None \<Rightarrow> 0"
  have A: "fold (\<lambda>key count. count + (case map_of kvs key of Some v \<Rightarrow> countNodes v (depth + 1) | None \<Rightarrow> 0))
          (map fst kvs) 1 = 1 + sum_list (map ?h (map fst kvs))"
  proof (rule fold_count)
    fix key assume "key \<in> set (map fst kvs)"
    then obtain v where v: "map_of kvs key = Some v"
      by (cases "map_of kvs key") (auto simp: map_of_eq_None_iff)
    then have x: "(key, v) \<in> set kvs" by (rule map_of_SomeD)
    from nesting_member [OF x] JObject.prems
    have "(depth + 1) + nesting v \<le> JSONParser_maxDepth" by simp
    moreover from x JObject.prems have "wf_json v" by (auto simp: list_all_iff)
    ultimately have "countNodes v (depth + 1) = nodes v"
      using x by (intro JObject.IH [of "(key, v)" v]) auto
    with v show "(case map_of kvs key of Some v \<Rightarrow> countNodes v (depth + 1) | None \<Rightarrow> 0) =
          ?h key" by simp
  qed
  have "?h (fst x) = (case x of (k, v) \<Rightarrow> nodes v)" if "x \<in> set kvs" for x
  proof -
    obtain k v where kv: "x = (k, v)" by (cases x)
    with that d have "map_of kvs k = Some v" by simp
    with kv show ?thesis by simp
  qed
  then have B: "map ?h (map fst kvs) = map (\<lambda>(k, v). nodes v) kvs"
    by simp
  have C: "countNodes (JObject kvs) depth =
      fold (\<lambda>key count. count + (case map_of kvs key of Some v \<Rightarrow> countNodes v (depth + 1) | None \<Rightarrow> 0))
          (map fst kvs) 1"
    using JObject.prems by (simp add: countNodes.simps [of "JObject kvs"])
  show ?case unfolding C A B by simp
qed (simp_all add: countNodes.simps)

text \<open>
  Claim C10. On a value whose nesting depth is at most 100, the bound of the parser, the
  standalone counter \<open>countNodes\<close> returns the number that \<open>getStatistics\<close> reports as
  \<open>totalNodes\<close>.
\<close>

theorem countNodes_eq_totalNodes:
  assumes "wf_json v" and "nesting v \<le> JSONParser_maxDepth"
  shows "countNodes v 0 = totalNodes (getStatistics v)"
  using assms by (simp add: countNodes_nodes traverse_totalNodes getStatistics_def)

theorem countNodes_eq_totalNodes_witness:
  "wf_json (JObject [(''a'', JArray [JNumber 1, JNull]), (''b'', JString ''x'')]) \<and>
   nesting (JObject [(''a'', JArray [JNumber 1, JNull]), (''b'', JString ''x'')]) \<le> JSONParser_maxDepth \<and>
   countNodes (JObject [(''a'', JArray [JNumber 1, JNull]), (''b'', JString ''x'')]) 0 = 5 \<and>
   totalNodes (getStatistics (JObject [(''a'', JArray [JNumber 1, JNull]), (''b'', JString ''x'')])) = 5"
  using countNodes_eq_totalNodes [of "JObject [(''a'', JArray [JNumber 1, JNull]), (''b'', JString ''x'')]"]
  by (simp add: JSONParser_maxDepth_def getStatistics_def visit_def)

section \<open>flatten\<close>

lemma fold_append:
  assumes "\<And>x acc. x \<in> set xs \<Longrightarrow> f x acc = acc @ g x"
  shows "fold f xs acc = acc @ concat (map g xs)"
  using assms
proof (induction xs arbitrary: acc)
  case Nil
  show ?case by simp
next
  case (Cons a xs)
  have "f a acc = acc @ g a" by (rule Cons.prems) simp
  moreover have "fold f xs (acc @ g a) = (acc @ g a) @ concat (map g xs)"
    by (rule Cons.IH) (simp add: Cons.prems)
  ultimately show ?case by simp
qed

lemma zip_upt_mem: "(i, x) \<in> set (zip [0..<length xs] xs) \<Longrightarrow> i < length xs \<and> x = xs ! i"
  by (auto simp: set_zip)

lemma map_snd_zip_upt: "map snd (zip [0..<length xs] xs) = xs"
  by simp

lemma flatten_traverse_acc:
  "flatten_traverse L v p d acc = acc @ flatten_traverse L v p d []"
proof (induction v arbitrary: p d acc)
  case (JArray xs)
  let ?f = "\<lambda>(key, val). flatten_traverse L val (p @ [Idx key]) (d + 1)"
  let ?g = "\<lambda>(key, val). flatten_traverse L val (p @ [Idx key]) (d + 1) []"
  have step: "fold ?f (zip [0..<length xs] xs) a = a @ concat (map ?g (zip [0..<length xs] xs))" for a
  proof (rule fold_append)
    fix kv a' assume mem: "kv \<in> set (zip [0..<length xs] xs)"
    obtain i x where kv: "kv = (i, x)" by (cases kv)
    with mem have "x \<in> set xs" by (auto dest: set_zip_rightD)
    then have "flatten_traverse L x (p @ [Idx i]) (d + 1) a' =
        a' @ flatten_traverse L x (p @ [Idx i]) (d + 1) []" by (rule JArray.IH)
    with kv show "?f kv a' = a' @ ?g kv" by simp
  qed
  show ?case
  proof (cases "d > L")
    case True
    then show ?thesis by (simp add: flatten_traverse.simps [of L "JArray xs"])
  next
    case False
    then have unfold: "flatten_traverse L (JArray xs) p d a = fold ?f (zip [0..<length xs] xs) a" for a
      by (subst flatten_traverse.simps) simp
    show ?thesis unfolding unfold step [of acc] step [of "[]"] by simp
  qed
next
  case (JObject kvs)
  let ?f = "\<lambda>(key, val). flatten_traverse L val (p @ [Key key]) (d + 1)"
  let ?g = "\<lambda>(key, val). flatten_traverse L val (p @ [Key key]) (d + 1) []"
  have step: "fold ?f kvs a = a @ concat (map ?g kvs)" for a
  proof (rule fold_append)
    fix kv a' assume mem: "kv \<in> set kvs"
    obtain k x where kv: "kv = (k, x)" by (cases kv)
    with mem have "flatten_traverse L x (p @ [Key k]) (d + 1) a' =
        a' @ flatten_traverse L x (p @ [Key k]) (d + 1) []"
      by (intro JObject.IH [of kv x]) auto
    with kv show "?f kv a' = a' @ ?g kv" by simp
  qed
  show ?case
  proof (cases "d > L")
    case True
    then show ?thesis by (simp add: flatten_traverse.simps [of L "JObject kvs"])
  next
    case False
    then have unfold: "flatten_traverse L (JObject kvs) p d a = fold ?f kvs a" for a
      by (subst flatten_traverse.simps) simp
    show ?thesis unfolding unfold step [of acc] step [of "[]"] by simp
  qed
qed (simp_all add: flatten_traverse.simps)

lemma flatten_traverse_array:
  "flatten_traverse L (JArray xs) p d [] =
     (if d > L then []
      else concat (map (\<lambda>(key, val). flatten_traverse L val (p @ [Idx key]) (d + 1) [])
                    (zip [0..<length xs] xs)))"
proof -
  have "fold (\<lambda>(key, val). flatten_traverse L val (p @ [Idx key]) (d + 1)) (zip [0..<length xs] xs) [] =
        [] @ concat (map (\<lambda>(key, val). flatten_traverse L val (p @ [Idx key]) (d + 1) [])
                      (zip [0..<length xs] xs))"
  proof (rule fold_append)
    fix kv :: "nat \<times> json" and a'
    obtain i x where kv: "kv = (i, x)" by (cases kv)
    show "(case kv of (key, val) \<Rightarrow> flatten_traverse L val (p @ [Idx key]) (d + 1)) a' =
          a' @ (case kv of (key, val) \<Rightarrow> flatten_traverse L val (p @ [Idx key]) (d + 1) [])"
      unfolding kv using flatten_traverse_acc [of L x "p @ [Idx i]" "d + 1" a'] by simp
  qed
  then show ?thesis by (subst flatten_traverse.simps) simp
qed

lemma flatten_traverse_object:
  "flatten_traverse L (JObject kvs) p d [] =
     (if d > L then []
      else concat (map (\<lambda>(key, val). flatten_traverse L val (p @ [Key key]) (d + 1) []) kvs))"
proof -
  have "fold (\<lambda>(key, val). flatten_traverse L val (p @ [Key key]) (d + 1)) kvs [] =
        [] @ concat (map (\<lambda>(key, val). flatten_traverse L val (p @ [Key key]) (d + 1) []) kvs)"
  proof (rule fold_append)
    fix kv :: "string \<times> json" and a'
    obtain k x where kv: "kv = (k, x)" by (cases kv)
    show "(case kv of (key, val) \<Rightarrow> flatten_traverse L val (p @ [Key key]) (d + 1)) a' =
          a' @ (case kv of (key, val) \<Rightarrow> flatten_traverse L val (p @ [Key key]) (d + 1) [])"
      unfolding kv using flatten_traverse_acc [of L x "p @ [Key k]" "d + 1" a'] by simp
  qed
  then show ?thesis by (subst flatten_traverse.simps) simp
qed

lemma flatten_traverse_values:
  "d + nesting v \<le> L \<Longrightarrow> map entry_value (flatten_traverse L v p d []) = leaves v"
proof (induction v arbitrary: p d)
  case (JArray xs)
  have "map entry_value (flatten_traverse L x (p @ [Idx i]) (d + 1) []) = leaves x"
    if "(i, x) \<in> set (zip [0..<length xs] xs)" for i x
  proof -
    from that have x: "x \<in> set xs" by (auto dest: set_zip_rightD)
    from nesting_elem [OF x] JArray.prems have "(d + 1) + nesting x \<le> L" by simp
    then show ?thesis by (rule JArray.IH [OF x])
  qed
  then have "map (\<lambda>kv. map entry_value
                 (case kv of (key, val) \<Rightarrow> flatten_traverse L val (p @ [Idx key]) (d + 1) []))
               (zip [0..<length xs] xs) =
             map (\<lambda>kv. leaves (snd kv)) (zip [0..<length xs] xs)"
    by (intro map_cong) auto
  also have "\<dots> = map leaves (map snd (zip [0..<length xs] xs))"
    by (simp only: map_map comp_def)
  also have "\<dots> = map leaves xs" by (simp only: map_snd_zip_upt)
  finally show ?case using JArray.prems
    by (simp add: flatten_traverse_array map_concat comp_def)
next
  case (JObject kvs)
  have "map entry_value (flatten_traverse L x (p @ [Key k]) (d + 1) []) = leaves x"
    if "(k, x) \<in> set kvs" for k x
  proof -
    from nesting_member [OF that] JObject.prems have "(d + 1) + nesting x \<le> L" by simp
    with that show ?thesis by (intro JObject.IH [of "(k, x)" x]) auto
  qed
  then have "map (map entry_value \<circ>
                 (\<lambda>(key, val). flatten_traverse L val (p @ [Key key]) (d + 1) [])) kvs =
             map (\<lambda>(k, v). leaves v) kvs"
    by (intro map_cong) auto
  then have "map entry_value
               (concat (map (\<lambda>(key, val). flatten_traverse L val (p @ [Key key]) (d + 1) []) kvs)) =
             concat (map (\<lambda>(k, v). leaves v) kvs)"
    by (simp only: map_concat map_map)
  moreover from JObject.prems have "\<not> d > L" by simp
  then have "flatten_traverse L (JObject kvs) p d [] =
      concat (map (\<lambda>(key, val). flatten_traverse L val (p @ [Key key]) (d + 1) []) kvs)"
    by (simp only: flatten_traverse_object if_False)
  ultimately show ?case by (simp only: leaves.simps)
qed (simp_all add: flatten_traverse.simps)

lemma flatten_traverse_paths:
  "wf_json v \<Longrightarrow> e \<in> set (flatten_traverse L v p d []) \<Longrightarrow>
   \<exists>r. entry_path e = generateAccessPath (p @ r) \<and>
       getValueAtPath_loop (Some v) r = Inr (Some (entry_value e)) \<and>
       entry_type e = getType (entry_value e)"
proof (induction v arbitrary: p d)
  case (JArray xs)
  from JArray.prems(2) obtain i x where
    mem: "(i, x) \<in> set (zip [0..<length xs] xs)" and
    e: "e \<in> set (flatten_traverse L x (p @ [Idx i]) (d + 1) [])"
    by (auto simp: flatten_traverse_array split: if_splits)
  from mem have i: "i < length xs" and x: "x = xs ! i" by (auto dest: zip_upt_mem)
  then have xin: "x \<in> set xs" by simp
  with JArray.prems(1) have "wf_json x" by (simp add: list_all_iff)
  from JArray.IH [OF xin this e] obtain r where
    r: "entry_path e = generateAccessPath ((p @ [Idx i]) @ r)"
       "getValueAtPath_loop (Some x) r = Inr (Some (entry_value e))"
       "entry_type e = getType (entry_value e)" by blast
  from i x r(2) have "getValueAtPath_loop (Some (JArray xs)) (Idx i # r) = Inr (Some (entry_value e))"
    by simp
  with r(1,3) show ?case by (intro exI [of _ "Idx i # r"]) simp
next
  case (JObject kvs)
  from JObject.prems(2) obtain k x where
    mem: "(k, x) \<in> set kvs" and
    e: "e \<in> set (flatten_traverse L x (p @ [Key k]) (d + 1) [])"
    by (auto simp: flatten_traverse_object split: if_splits)
  from mem JObject.prems(1) have wf: "wf_json x" and look: "map_of kvs k = Some x"
    by (auto simp: list_all_iff)
  have "\<exists>r. entry_path e = generateAccessPath ((p @ [Key k]) @ r) \<and>
       getValueAtPath_loop (Some x) r = Inr (Some (entry_value e)) \<and>
       entry_type e = getType (entry_value e)"
    using mem wf e by (intro JObject.IH [of "(k, x)" x]) auto
  then obtain r where
    r: "entry_path e = generateAccessPath ((p @ [Key k]) @ r)"
       "getValueAtPath_loop (Some x) r = Inr (Some (entry_value e))"
       "entry_type e = getType (entry_value e)" by blast
  from look r(2) have "getValueAtPath_loop (Some (JObject kvs)) (Key k # r) = Inr (Some (entry_value e))"
    by simp
  with r(1,3) show ?case by (intro exI [of _ "Key k # r"]) simp
qed (auto simp: flatten_traverse.simps split: if_splits intro!: exI [of _ "[]"])

lemma traverse_leaves:
  "depth + nesting v \<le> JSONParser_maxDepth \<Longrightarrow>
   primitives (traverse v depth st) + nulls (traverse v depth st) =
   (primitives st + nulls st) + length (leaves v)"
proof (induction v arbitrary: depth st)
  case (JArray xs)
  have "primitives (fold (\<lambda>item. traverse item (depth + 1)) xs st') +
        nulls (fold (\<lambda>item. traverse item (depth + 1)) xs st') =
        (primitives st' + nulls st') + sum_list (map (\<lambda>x. length (leaves x)) xs)" for st'
  proof (rule fold_measure [where m = "\<lambda>s. primitives s + nulls s"])
    fix x st'' assume x: "x \<in> set xs"
    from nesting_elem [OF x] JArray.prems have "(depth + 1) + nesting x \<le> JSONParser_maxDepth"
      by simp
    then show "primitives (traverse x (depth + 1) st'') + nulls (traverse x (depth + 1) st'') =
        (primitives st'' + nulls st'') + length (leaves x)"
      by (rule JArray.IH [OF x])
  qed
  with JArray.prems show ?case by (simp add: visit_def length_concat comp_def)
next
  case (JObject kvs)
  have "primitives (fold (\<lambda>(key, val). traverse val (depth + 1)) kvs st') +
        nulls (fold (\<lambda>(key, val). traverse val (depth + 1)) kvs st') =
        (primitives st' + nulls st') + sum_list (map (\<lambda>(k, v). length (leaves v)) kvs)" for st'
  proof (rule fold_measure [where m = "\<lambda>s. primitives s + nulls s"])
    fix x st'' assume x: "x \<in> set kvs"
    obtain k v where kv: "x = (k, v)" by (cases x)
    from x kv nesting_member [of k v kvs] JObject.prems
    have "(depth + 1) + nesting v \<le> JSONParser_maxDepth" by simp
    with x kv have "primitives (traverse v (depth + 1) st'') + nulls (traverse v (depth + 1) st'') =
        (primitives st'' + nulls st'') + length (leaves v)"
      by (intro JObject.IH [of x v]) auto
    with kv show "primitives ((case x of (key, val) \<Rightarrow> traverse val (depth + 1)) st'') +
        nulls ((case x of (key, val) \<Rightarrow> traverse val (depth + 1)) st'') =
        (primitives st'' + nulls st'') + (case x of (k, v) \<Rightarrow> length (leaves v))" by simp
  qed
  moreover have "length (leaves (JObject kvs)) = sum_list (map (\<lambda>(k, v). length (leaves v)) kvs)"
    by (simp add: length_concat comp_def case_prod_unfold)
  ultimately show ?case using JObject.prems by (simp add: visit_def del: leaves.simps)
qed (simp_all add: visit_def)

text \<open>
  Claim C1, as the code has it. \<open>flatten\<close> pushes an entry for a leaf only, never for an
  array or an object. On a value whose nesting depth does not exceed the bound 10, it
  yields the leaves in document order, as many entries as \<open>getStatistics\<close> counts
  primitives and nulls; each entry records the notations of a path that resolves against
  the value to the entry's value, and the type of that value.
\<close>

theorem flatten_entries:
  assumes "wf_json v" and "nesting v \<le> flatten_maxDepth"
  shows "map entry_value (flatten v flatten_maxDepth) = leaves v \<and>
         length (flatten v flatten_maxDepth) =
           primitives (getStatistics v) + nulls (getStatistics v) \<and>
         (\<forall>e \<in> set (flatten v flatten_maxDepth).
            \<exists>p. entry_path e = generateAccessPath p \<and>
                getValueAtPath v p = Inr (Some (entry_value e)) \<and>
                entry_type e = getType (entry_value e))"
proof -
  from assms(2) have vals: "map entry_value (flatten v flatten_maxDepth) = leaves v"
    unfolding flatten_def by (intro flatten_traverse_values) simp
  from assms(2) have "0 + nesting v \<le> JSONParser_maxDepth"
    by (simp add: flatten_maxDepth_def JSONParser_maxDepth_def)
  then have "primitives (getStatistics v) + nulls (getStatistics v) = length (leaves v)"
    unfolding getStatistics_def by (subst traverse_leaves) simp_all
  moreover from vals have "length (flatten v flatten_maxDepth) = length (leaves v)"
    by (metis length_map)
  moreover have "\<exists>p. entry_path e = generateAccessPath p \<and>
                getValueAtPath v p = Inr (Some (entry_value e)) \<and>
                entry_type e = getType (entry_value e)"
    if "e \<in> set (flatten v flatten_maxDepth)" for e
    using flatten_traverse_paths [OF assms(1), of e flatten_maxDepth "[]" 0] that
    by (simp add: flatten_def getValueAtPath_def)
  ultimately show ?thesis using vals by simp
qed

theorem flatten_entries_witness:
  "wf_json (JObject [(''users'', JArray [JObject [(''age'', JNumber 30)], JNull])]) \<and>
   nesting (JObject [(''users'', JArray [JObject [(''age'', JNumber 30)], JNull])]) \<le> flatten_maxDepth \<and>
   map entry_value (flatten (JObject [(''users'', JArray [JObject [(''age'', JNumber 30)], JNull])])
     flatten_maxDepth) = [JNumber 30, JNull] \<and>
   primitives (getStatistics (JObject [(''users'', JArray [JObject [(''age'', JNumber 30)], JNull])])) +
   nulls (getStatistics (JObject [(''users'', JArray [JObject [(''age'', JNumber 30)], JNull])])) = 2"
  using flatten_entries [of "JObject [(''users'', JArray [JObject [(''age'', JNumber 30)], JNull])]"]
  by (simp add: flatten_maxDepth_def getStatistics_def JSONParser_maxDepth_def visit_def)

text \<open>
  Claim C1 as stated fails: the array holding one number has two nodes and nesting depth
  1, and \<open>flatten\<close> yields one entry for it.
\<close>

theorem flatten_fewer_than_totalNodes:
  "nesting (JArray [JNumber 1]) \<le> flatten_maxDepth \<and>
   length (flatten (JArray [JNumber 1]) flatten_maxDepth) = 1 \<and>
   totalNodes (getStatistics (JArray [JNumber 1])) = 2"
  by (simp add: flatten_maxDepth_def flatten_def flatten_traverse.simps getStatistics_def
      JSONParser_maxDepth_def visit_def)

section \<open>Resolving a path\<close>

text \<open>
  Claim C2. \<open>getValueAtPath\<close> on the empty object and the path \<open>a\<close>, \<open>b\<close>: the first
  lookup yields \<open>undefined\<close> and the second throws, where the claim asks for a miss.
\<close>

theorem getValueAtPath_throws:
  "getValueAtPath (JObject []) [Key ''a'', Key ''b''] = Inl TypeError"
  by (simp add: getValueAtPath_def)

section \<open>Node identities\<close>

lemma split_no_sep: "c \<notin> set x \<Longrightarrow> split c x = [x]"
  by (induction x) auto

lemma split_at_sep: "c \<notin> set x \<Longrightarrow> split c (x @ c # r) = x # split c r"
  by (induction x) auto

lemma split_join:
  "xs \<noteq> [] \<Longrightarrow> list_all (\<lambda>x. c \<notin> set x) xs \<Longrightarrow> split c (join [c] xs) = xs"
proof (induction xs)
  case Nil
  then show ?case by simp
next
  case (Cons x xs)
  then have x: "c \<notin> set x" by simp
  show ?case
  proof (cases xs)
    case Nil
    with x show ?thesis by (simp add: split_no_sep)
  next
    case (Cons y ys)
    with Cons.IH Cons.prems have "split c (join [c] xs) = xs" by simp
    moreover have "split c (x @ c # join [c] xs) = x # split c (join [c] xs)"
      using x by (rule split_at_sep)
    ultimately show ?thesis using Cons by simp
  qed
qed

lemma nodeId_split:
  assumes "dot_free p" and "p \<noteq> []"
  shows "split (CHR ''.'') (nodeId p) = map seg_string p"
proof -
  have "list_all (\<lambda>x. CHR ''.'' \<notin> set x) (map seg_string p)"
    using assms(1) by (simp add: dot_free_def list_all_iff)
  with assms(2) show ?thesis
    using split_join [of "map seg_string p" "CHR ''.''"] by (simp add: nodeId_def)
qed

text \<open>
  Claim C9, as the code has it. The key of a path is a function of the path. On paths
  whose segments contain no separator and which are not the single segment \<open>root\<close>, two
  paths have the same key exactly when their segments agree as strings. So a numeric
  segment and its string form share a key, and without the restriction a key that holds a
  separator shares its key with the nested keys, and the key \<open>root\<close> with the empty path.
\<close>

theorem nodeId_injective_on_strings:
  assumes "dot_free p" and "dot_free q"
    and "map seg_string p \<noteq> [''root'']" and "map seg_string q \<noteq> [''root'']"
  shows "nodeId p = nodeId q \<longleftrightarrow> map seg_string p = map seg_string q"
proof
  assume eq: "nodeId p = nodeId q"
  have root: "map seg_string r = [''root'']"
    if "dot_free r" and "r \<noteq> []" and "nodeId r = ''root''" for r
  proof -
    from that(1,2) have "split (CHR ''.'') (nodeId r) = map seg_string r" by (rule nodeId_split)
    with that(3) show ?thesis by simp
  qed
  show "map seg_string p = map seg_string q"
  proof (cases "p = []")
    case True
    show ?thesis
    proof (cases "q = []")
      case True
      with \<open>p = []\<close> show ?thesis by simp
    next
      case False
      from \<open>p = []\<close> eq have "nodeId q = ''root''" by (simp add: nodeId_def)
      with assms(2) False have "map seg_string q = [''root'']" by (intro root)
      with assms(4) show ?thesis by simp
    qed
  next
    case False
    show ?thesis
    proof (cases "q = []")
      case True
      with eq have "nodeId p = ''root''" by (simp add: nodeId_def)
      with assms(1) False have "map seg_string p = [''root'']" by (intro root)
      with assms(3) show ?thesis by simp
    next
      case qne: False
      from assms(1) False have "split (CHR ''.'') (nodeId p) = map seg_string p"
        by (rule nodeId_split)
      moreover from assms(2) qne have "split (CHR ''.'') (nodeId q) = map seg_string q"
        by (rule nodeId_split)
      ultimately show ?thesis using eq by simp
    qed
  qed
next
  assume "map seg_string p = map seg_string q"
  moreover from this have "p = [] \<longleftrightarrow> q = []" by (metis map_is_Nil_conv)
  ultimately show "nodeId p = nodeId q" by (simp add: nodeId_def)
qed

theorem nodeId_injective_on_strings_witness:
  "dot_free [Key ''users'', Idx 0] \<and> dot_free [Key ''users'', Key ''0''] \<and>
   map seg_string [Key ''users'', Idx 0] \<noteq> [''root''] \<and>
   map seg_string [Key ''users'', Key ''0''] \<noteq> [''root''] \<and>
   nodeId [Key ''users'', Idx 0] = nodeId [Key ''users'', Key ''0'']"
  using nodeId_injective_on_strings [of "[Key ''users'', Idx 0]" "[Key ''users'', Key ''0'']"]
  by (simp add: dot_free_def seg_string_def show_nat.simps)

text \<open>
  Claim C9 as stated fails: the index 1 and the key \<open>1\<close> are distinct paths with one key,
  and so are the key \<open>a.b\<close> and the nested keys \<open>a\<close>, \<open>b\<close>.
\<close>

theorem nodeId_collisions:
  "nodeId [Idx 1] = nodeId [Key ''1''] \<and> [Idx 1] \<noteq> [Key ''1''] \<and>
   nodeId [Key ''a.b''] = nodeId [Key ''a'', Key ''b''] \<and> [Key ''a.b''] \<noteq> [Key ''a'', Key ''b'']"
  by (simp add: nodeId_def seg_string_def show_nat.simps)

section \<open>The edits of attemptFix\<close>

lemma inserted_at_take_drop:
  "pos \<le> length s \<Longrightarrow> inserted_at c pos s (take pos s @ c # drop pos s)"
  by (simp add: inserted_at_def nth_append min_def)

lemma deleted_at_take_drop:
  "pos < length s \<Longrightarrow> deleted_at pos s (take pos s @ drop (Suc pos) s)"
  by (simp add: deleted_at_def min_def)

lemma duplicate_char_in_range:
  assumes "duplicate_char s e" and "position e \<le> length s"
  shows "position e < length s"
proof (rule ccontr)
  assume "\<not> position e < length s"
  with assms(2) have "position e = length s" by simp
  with assms(1) show False by (auto simp: duplicate_char_def charAt_def split: if_splits)
qed

lemma escape_is_insertion:
  assumes "charAt s pos = Some (CHR 0x22)"
  shows "take pos s @ [CHR 0x5C, CHR 0x22] @ drop (pos + 1) s = take pos s @ CHR 0x5C # drop pos s"
proof -
  from assms have "pos < length s" and "s ! pos = CHR 0x22"
    by (auto simp: charAt_def split: if_splits)
  then have "CHR 0x22 # drop (Suc pos) s = drop pos s"
    using Cons_nth_drop_Suc [of pos s] by simp
  then show ?thesis by simp
qed

lemma getContext_loop_fold:
  "i \<le> pos \<Longrightarrow> getContext_loop str pos i st = fold scan_step (map (charAt str) [i..<pos]) st"
proof (induction "pos - i" arbitrary: i st)
  case 0
  then show ?case by (simp add: getContext_loop.simps)
next
  case (Suc d)
  then have lt: "i < pos" and d: "d = pos - (i + 1)" and le: "i + 1 \<le> pos" by simp_all
  from Suc.hyps(1) [OF d le]
  have "getContext_loop str pos (i + 1) (scan_step (charAt str i) st) =
      fold scan_step (map (charAt str) [i + 1..<pos]) (scan_step (charAt str i) st)" .
  with lt show ?case
    by (subst getContext_loop.simps) (simp add: upt_conv_Cons)
qed

lemma charAt_prefix:
  "pos \<le> length s \<Longrightarrow> map (charAt s) [0..<pos] = map Some (take pos s)"
  by (rule nth_equalityI) (simp_all add: charAt_def)

lemma open_string_Cons:
  "open_string b (c # r) =
     (if c = CHR 0x5C then open_string b (tl r)
      else if c = CHR 0x22 then open_string (\<not> b) r
      else open_string b r)"
  by (cases r) auto

lemma scan_open_string:
  "scan_inString (fold scan_step (map Some cs) st) =
     (if scan_escaped st then open_string (scan_inString st) (tl cs)
      else open_string (scan_inString st) cs)"
proof (induction cs arbitrary: st)
  case Nil
  show ?case by simp
next
  case (Cons c r)
  have "scan_inString (fold scan_step (map Some (c # r)) st) =
      scan_inString (fold scan_step (map Some r) (scan_step (Some c) st))" by simp
  also have "\<dots> =
      (if scan_escaped (scan_step (Some c) st)
       then open_string (scan_inString (scan_step (Some c) st)) (tl r)
       else open_string (scan_inString (scan_step (Some c) st)) r)"
    by (rule Cons.IH)
  also have "\<dots> =
      (if scan_escaped st then open_string (scan_inString st) r
       else open_string (scan_inString st) (c # r))"
    by (simp add: scan_step_def open_string_Cons)
  finally show ?case by simp
qed

text \<open>The context scan of the source finds an open string exactly where the walk does.\<close>

lemma getContext_inString:
  "pos \<le> length s \<Longrightarrow> inString (getContext s pos) = open_string False (take pos s)"
  by (simp add: getContext_def Let_def getContext_loop_fold charAt_prefix scan_open_string)

text \<open>
  Within the text, the fix of \<open>attemptFix\<close> is the single-character edit of the first
  strategy that matches, in the order missing colon, missing comma, duplicate character,
  unescaped quote inside an open string, and there is no fix when none matches.
\<close>

lemma attemptFix_within_text:
  assumes "position e \<le> length s"
  shows "case attemptFix s e of
           Fixed r m \<Rightarrow>
             (if missing_colon e then inserted_at (CHR '':'') (position e) s r
              else if missing_comma e then inserted_at (CHR '','') (position e) s r
              else if duplicate_char s e then deleted_at (position e) s r
              else unescaped_quote s e \<and> inserted_at (CHR 0x5C) (position e) s r \<and>
                   r ! (position e + 1) = CHR 0x22)
         | NotFixed \<Rightarrow>
             \<not> missing_colon e \<and> \<not> missing_comma e \<and> \<not> duplicate_char s e \<and>
             \<not> unescaped_quote s e"
proof -
  let ?pos = "position e"
  consider (colon) "missing_colon e"
    | (comma) "\<not> missing_colon e" "missing_comma e"
    | (dup) "\<not> missing_colon e" "\<not> missing_comma e" "duplicate_char s e"
    | (quote) "\<not> missing_colon e" "\<not> missing_comma e" "\<not> duplicate_char s e" "unescaped_quote s e"
    | (none) "\<not> missing_colon e" "\<not> missing_comma e" "\<not> duplicate_char s e" "\<not> unescaped_quote s e"
    by blast
  then show ?thesis
  proof cases
    case colon
    then have "attemptFix s e =
        Fixed (take ?pos s @ CHR '':'' # drop ?pos s) (''Added missing ':' at position '' @ show_nat ?pos)"
      by (simp add: attemptFix_def missing_colon_def Let_def)
    with colon assms show ?thesis by (simp add: inserted_at_take_drop)
  next
    case comma
    then have "attemptFix s e =
        Fixed (take ?pos s @ CHR '','' # drop ?pos s) (''Added missing ',' at position '' @ show_nat ?pos)"
      by (simp add: attemptFix_def missing_colon_def missing_comma_def Let_def)
    with comma assms show ?thesis by (simp add: inserted_at_take_drop)
  next
    case dup
    then have "attemptFix s e =
        Fixed (take ?pos s @ drop (?pos + 1) s)
          (''Removed duplicate '' @ [CHR 0x27] @ show_char (charAt s ?pos) @ [CHR 0x27] @
           '' at position '' @ show_nat ?pos)"
      by (simp add: attemptFix_def missing_colon_def missing_comma_def duplicate_char_def Let_def)
    moreover from dup(3) assms have "?pos < length s" by (rule duplicate_char_in_range)
    ultimately show ?thesis using dup by (simp add: deleted_at_take_drop)
  next
    case quote
    then have q: "charAt s ?pos = Some (CHR 0x22)" by (simp add: unescaped_quote_def)
    from quote assms have "attemptFix s e =
        Fixed (take ?pos s @ [CHR 0x5C, CHR 0x22] @ drop (?pos + 1) s)
          (''Escaped quote at position '' @ show_nat ?pos)"
      by (auto simp: attemptFix_def missing_colon_def missing_comma_def duplicate_char_def
          unescaped_quote_def getContext_inString Let_def)
    then have res: "attemptFix s e =
        Fixed (take ?pos s @ CHR 0x5C # drop ?pos s) (''Escaped quote at position '' @ show_nat ?pos)"
      by (simp only: escape_is_insertion [OF q])
    from q have "?pos < length s" and "s ! ?pos = CHR 0x22"
      by (auto simp: charAt_def split: if_splits)
    then have "(take ?pos s @ CHR 0x5C # drop ?pos s) ! (?pos + 1) = CHR 0x22"
      by (simp add: nth_append min_def)
    with res quote assms show ?thesis by (simp add: inserted_at_take_drop)
  next
    case none
    with assms have "attemptFix s e = NotFixed"
      by (auto simp: attemptFix_def missing_colon_def missing_comma_def duplicate_char_def
          unescaped_quote_def getContext_inString Let_def)
    with none show ?thesis by simp
  qed
qed

text \<open>
  Claim C4. The claim holds where the offset lies in the text, and the offset that
  \<open>parseError\<close> reads need not: a message that quotes the text yields the digits of
  the text itself. The text \<open>position 99\<close> is rejected by a current V8 with the message
  below, from which \<open>parseError\<close> reads the offset 99. There both \<open>str[pos - 1]\<close>
  and \<open>str[pos]\<close> are \<open>undefined\<close> and count as a duplicate: \<open>attemptFix\<close> reports
  a fix that deletes nothing and returns the text as it was.
\<close>

theorem attemptFix_beyond_text:
  \<open>parseError ''Unexpected token 'p', "position 99" is not valid JSON'' =
     Some \<lparr>position = 99, expected = None,
           message = ''Unexpected token 'p', "position 99" is not valid JSON''\<rparr> \<and>
   attemptFix ''position 99''
     \<lparr>position = 99, expected = None,
      message = ''Unexpected token 'p', "position 99" is not valid JSON''\<rparr> =
     Fixed ''position 99'' (''Removed duplicate 'undefined' at position 99'') \<and>
   \<not> deleted_at 99 ''position 99'' ''position 99''\<close>
  by code_simp

section \<open>The loop of Phase B\<close>

lemma fixStructuralErrors_loop_run:
  "\<exists>t msgs. fixStructuralErrors_loop P i s log0 = (t, log0 @ msgs) \<and>
            i + length msgs \<le> max i maxIterations \<and>
            edit_chain P s msgs t \<and>
            (i + length msgs < maxIterations \<longrightarrow> stops_at P t)"
proof (induction P i s log0 rule: fixStructuralErrors_loop.induct)
  case (1 P i s log0)
  show ?case
  proof (cases "i < maxIterations")
    case False
    then have "fixStructuralErrors_loop P i s log0 = (s, log0 @ [])"
      by (subst fixStructuralErrors_loop.simps) simp
    moreover have "edit_chain P s [] s" by simp
    ultimately show ?thesis using False by (intro exI [of _ s] exI [of _ "[]"]) simp
  next
    case True
    note lt = True
    show ?thesis
    proof (cases "P s")
      case (Inr v)
      with lt have "fixStructuralErrors_loop P i s log0 = (s, log0 @ [])"
        by (subst fixStructuralErrors_loop.simps) simp
      moreover from Inr have "stops_at P s" by (simp add: stops_at_def)
      ultimately show ?thesis using lt by (intro exI [of _ s] exI [of _ "[]"]) simp
    next
      case (Inl msg)
      show ?thesis
      proof (cases "parseError msg")
        case None
        with lt Inl have "fixStructuralErrors_loop P i s log0 = (s, log0 @ [])"
          by (subst fixStructuralErrors_loop.simps) simp
        moreover from Inl None have "stops_at P s" by (simp add: stops_at_def)
        ultimately show ?thesis using lt by (intro exI [of _ s] exI [of _ "[]"]) simp
      next
        case (Some e)
        show ?thesis
        proof (cases "attemptFix s e")
          case NotFixed
          with lt Inl Some have "fixStructuralErrors_loop P i s log0 = (s, log0 @ [])"
            by (subst fixStructuralErrors_loop.simps) simp
          moreover from Inl Some NotFixed have "stops_at P s" by (simp add: stops_at_def)
          ultimately show ?thesis using lt by (intro exI [of _ s] exI [of _ "[]"]) simp
        next
          case (Fixed r m)
          from "1.IH" [OF lt Inl Some Fixed] obtain t msgs where
            run: "fixStructuralErrors_loop P (i + 1) r (log0 @ [m]) = (t, (log0 @ [m]) @ msgs)"
            and len: "(i + 1) + length msgs \<le> max (i + 1) maxIterations"
            and chain: "edit_chain P r msgs t"
            and stop: "(i + 1) + length msgs < maxIterations \<longrightarrow> stops_at P t"
            by blast
          from lt Inl Some Fixed run
          have "fixStructuralErrors_loop P i s log0 = (t, log0 @ (m # msgs))"
            by (subst fixStructuralErrors_loop.simps) simp
          moreover from lt len have "i + length (m # msgs) \<le> max i maxIterations" by simp
          moreover from Inl Some Fixed chain have "edit_chain P s (m # msgs) t" by simp
          moreover from stop have "i + length (m # msgs) < maxIterations \<longrightarrow> stops_at P t" by simp
          ultimately show ?thesis by blast
        qed
      qed
    qed
  qed
qed

text \<open>
  Claim C5. \<open>repair\<close> is a total function of the text and the host, so it returns and
  raises nothing. Its result is the text that Phase A produced followed by a chain of at
  most 10 edits of Phase B, each made on a text that the host rejects with an offset and
  each logged by one message after those of Phase A. Unless 10 edits were made, the last
  text is one that the host accepts, or for which it reports no offset, or to which no
  strategy applies.
\<close>

theorem repair_bounded:
  "\<exists>msgs. length msgs \<le> maxIterations \<and>
          repairs (repair P text) = snd (fixCommonPatterns text []) @ msgs \<and>
          edit_chain P (fst (fixCommonPatterns text [])) msgs (repaired (repair P text)) \<and>
          (length msgs = maxIterations \<or> stops_at P (repaired (repair P text)))"
proof -
  obtain a logA where A: "fixCommonPatterns text [] = (a, logA)" by (cases "fixCommonPatterns text []")
  from fixStructuralErrors_loop_run [of P 0 a logA] obtain t msgs where
    run: "fixStructuralErrors_loop P 0 a logA = (t, logA @ msgs)"
    and len: "0 + length msgs \<le> max 0 maxIterations"
    and chain: "edit_chain P a msgs t"
    and stop: "0 + length msgs < maxIterations \<longrightarrow> stops_at P t"
    by blast
  from A run have "repair P text = \<lparr>repaired = t, repairs = logA @ msgs\<rparr>"
    by (simp add: repair_def fixStructuralErrors_def)
  with A len chain stop show ?thesis by (intro exI [of _ msgs]) auto
qed

theorem repair_bounded_witness:
  \<open>repair JSON_parse ''{"a":1,,"b":2}'' =
     \<lparr>repaired = ''{"a":1,"b":2}'', repairs = [''Removed duplicate ',' at position 7'']\<rparr> \<and>
   stops_at JSON_parse ''{"a":1,"b":2}'' \<and>
   (\<exists>msgs. length msgs \<le> maxIterations \<and>
      repairs (repair JSON_parse ''{"a":1,,"b":2}'') =
        snd (fixCommonPatterns ''{"a":1,,"b":2}'' []) @ msgs \<and>
      edit_chain JSON_parse (fst (fixCommonPatterns ''{"a":1,,"b":2}'' [])) msgs
        (repaired (repair JSON_parse ''{"a":1,,"b":2}'')) \<and>
      (length msgs = maxIterations \<or>
       stops_at JSON_parse (repaired (repair JSON_parse ''{"a":1,,"b":2}''))))\<close>
proof -
  have \<open>repair JSON_parse ''{"a":1,,"b":2}'' =
     \<lparr>repaired = ''{"a":1,"b":2}'', repairs = [''Removed duplicate ',' at position 7'']\<rparr>\<close>
    by code_simp
  moreover have \<open>stops_at JSON_parse ''{"a":1,"b":2}''\<close>
    by code_simp
  ultimately show ?thesis
    using repair_bounded [of JSON_parse \<open>''{"a":1,,"b":2}''\<close>] by simp
qed

section \<open>Repair of valid input\<close>

lemma count_literal_zero: "\<not> includes_str s pat \<Longrightarrow> count_literal pat s = 0"
  by (induction s) auto

lemma count_trailing_commas_zero: "\<not> has_trailing_comma s \<Longrightarrow> count_trailing_commas s = 0"
  by (induction s) auto

lemma fixCommonPatterns_no_match:
  assumes "phaseA_no_match text"
  shows "fixCommonPatterns text log0 = (text, log0)"
proof -
  from assms have \<open>count_literal ''[Object]'' text = 0\<close> \<open>count_literal ''[[Object]]'' text = 0\<close>
    \<open>count_literal ''"Object"'' text = 0\<close> \<open>count_trailing_commas text = 0\<close>
    by (simp_all add: phaseA_no_match_def count_literal_zero count_trailing_commas_zero)
  then show ?thesis by (simp add: fixCommonPatterns_def)
qed

text \<open>
  Claim C3, as the code has it. Phase A rewrites every match of its patterns, also in a
  text that parses. On a text that parses and in which no pattern of Phase A occurs,
  \<open>repair\<close> returns the text itself, which parses to the same value, and an empty log.
\<close>

theorem repair_valid_unchanged:
  assumes "P text = Inr v" and "phaseA_no_match text"
  shows "repair P text = \<lparr>repaired = text, repairs = []\<rparr> \<and> P (repaired (repair P text)) = Inr v"
proof -
  have "fixStructuralErrors_loop P 0 text [] = (text, [])"
    using assms(1) by (subst fixStructuralErrors_loop.simps) simp
  with fixCommonPatterns_no_match [OF assms(2), of "[]"]
  have "repair P text = \<lparr>repaired = text, repairs = []\<rparr>"
    by (simp add: repair_def fixStructuralErrors_def)
  with assms(1) show ?thesis by simp
qed

theorem repair_valid_unchanged_witness:
  \<open>JSON_parse ''{"a": [1, "Object "]}'' = Inr (JObject [(''a'', JArray [JNumber 1, JString ''Object ''])]) \<and>
   phaseA_no_match ''{"a": [1, "Object "]}'' \<and>
   repair JSON_parse ''{"a": [1, "Object "]}'' = \<lparr>repaired = ''{"a": [1, "Object "]}'', repairs = []\<rparr>\<close>
proof -
  have p: \<open>JSON_parse ''{"a": [1, "Object "]}'' =
      Inr (JObject [(''a'', JArray [JNumber 1, JString ''Object ''])])\<close>
    by code_simp
  have n: \<open>phaseA_no_match ''{"a": [1, "Object "]}''\<close>
    by code_simp
  from repair_valid_unchanged
    [of JSON_parse \<open>''{"a": [1, "Object "]}''\<close> "JObject [(''a'', JArray [JNumber 1, JString ''Object ''])]"]
    p n show ?thesis by simp
qed

text \<open>
  Claim C3 as stated fails: the text of the JSON string \<open>Object\<close> parses, and \<open>repair\<close>
  turns it into the text of the empty object, with one entry in the log.
\<close>

theorem repair_rewrites_valid_input:
  \<open>JSON_parse ''"Object"'' = Inr (JString ''Object'') \<and>
   repair JSON_parse ''"Object"'' =
     \<lparr>repaired = ''{}'', repairs = [''Replaced 1 instance(s) of "Object" with {}'']\<rparr> \<and>
   JSON_parse ''{}'' = Inr (JObject [])\<close>
  by code_simp

section \<open>Trailing commas\<close>

lemma space_not_comma: "is_space c \<Longrightarrow> c \<noteq> CHR '',''"
  by (auto simp: is_space_def)

lemma without_trailing_commas_spaces:
  "list_all is_space ws \<Longrightarrow> without_trailing_commas (ws @ r) = ws @ without_trailing_commas r"
  by (induction ws) (auto dest: space_not_comma)

lemma remove_is_without: "remove_trailing_commas s = without_trailing_commas s"
proof (induction s rule: remove_trailing_commas.induct)
  case 1
  show ?case by simp
next
  case (2 c cs)
  show ?case
  proof (cases "trailing_comma_at (c # cs)")
    case False
    with 2(2) show ?thesis by (simp del: trailing_comma_at.simps)
  next
    case True
    then obtain d ds where d: "dropWhile is_space cs = d # ds" and closer: "is_closer d"
      by (auto split: list.splits)
    have cs: "cs = takeWhile is_space cs @ d # ds"
      using takeWhile_dropWhile_id [of is_space cs] d by simp
    have "list_all is_space (takeWhile is_space cs)"
      by (simp add: list_all_iff) (meson set_takeWhileD)
    then have "without_trailing_commas (takeWhile is_space cs @ d # ds) =
        takeWhile is_space cs @ without_trailing_commas (d # ds)"
      by (rule without_trailing_commas_spaces)
    moreover from closer have "without_trailing_commas (d # ds) = d # without_trailing_commas ds"
      by (auto simp: is_closer_def)
    ultimately have "without_trailing_commas cs =
        takeWhile is_space cs @ d # without_trailing_commas ds"
      using cs by simp
    moreover from True d 2(1) have "remove_trailing_commas (c # cs) =
        takeWhile is_space cs @ d # without_trailing_commas ds"
      by (simp del: trailing_comma_at.simps)
    ultimately show ?thesis using True by (simp del: trailing_comma_at.simps)
  qed
qed

text \<open>
  Claim C6. On the text \<open>[1, 2, 3,]\<close>, \<open>repair\<close> removes the trailing comma and logs it;
  the result \<open>[1, 2, 3]\<close> is accepted by \<open>parse\<close>, and the statistics of the parsed value
  are 4 nodes, depth 1 and 1 array. The fourth rewrite of Phase A removes, from any text,
  every comma that a closing bracket or brace follows, white space ignored.
\<close>

theorem repair_trailing_comma:
  "repair JSON_parse ''[1, 2, 3,]'' =
     \<lparr>repaired = ''[1, 2, 3]'', repairs = [''Removed 1 trailing comma(s)'']\<rparr> \<and>
   parse JSON_parse ''[1, 2, 3]'' =
     [(''success'', FBool True), (''data'', FData (JArray [JNumber 1, JNumber 2, JNumber 3])),
      (''error'', FNull)] \<and>
   totalNodes (getStatistics (JArray [JNumber 1, JNumber 2, JNumber 3])) = 4 \<and>
   maxDepth (getStatistics (JArray [JNumber 1, JNumber 2, JNumber 3])) = 1 \<and>
   arrays (getStatistics (JArray [JNumber 1, JNumber 2, JNumber 3])) = 1 \<and>
   (\<forall>s. remove_trailing_commas s = without_trailing_commas s)"
proof -
  have "repair JSON_parse ''[1, 2, 3,]'' =
     \<lparr>repaired = ''[1, 2, 3]'', repairs = [''Removed 1 trailing comma(s)'']\<rparr>"
    by code_simp
  moreover have "parse JSON_parse ''[1, 2, 3]'' =
     [(''success'', FBool True), (''data'', FData (JArray [JNumber 1, JNumber 2, JNumber 3])),
      (''error'', FNull)]"
    by code_simp
  moreover have "getStatistics (JArray [JNumber 1, JNumber 2, JNumber 3]) =
     \<lparr>totalNodes = 4, maxDepth = 1, arrays = 1, objects = 0, primitives = 3, nulls = 0\<rparr>"
    by (simp add: getStatistics_def JSONParser_maxDepth_def visit_def)
  ultimately show ?thesis by (simp add: remove_is_without)
qed

section \<open>The outcome of a failed parse\<close>

lemma length_split: "length (split c s) = Suc (count_list s c)"
  by (induction s) (auto split: list.splits)

text \<open>
  For every host: when the host rejects the trimmed text, the outcome of \<open>parse\<close> is
  a failure with the fields \<open>success\<close>, \<open>error\<close> and \<open>line\<close>, where the line is 1 plus
  the number of line breaks among the first characters of the text as it was passed, as
  many as the offset says, or \<open>null\<close> without an offset.
\<close>

lemma parse_failure_outcome:
  assumes "trim text \<noteq> []" and "P (trim text) = Inl msg"
  shows "parse P text =
           [(''success'', FBool False), (''error'', FString (''Parse error: '' @ msg)),
            (''line'', case match_position msg of
                         Some ds \<Rightarrow> FNumber (1 + count_list (take (parseInt ds) text) (CHR 0x0A))
                       | None \<Rightarrow> FNull)]"
proof -
  from assms(1) have "text \<noteq> []" by (auto simp: trim_def)
  with assms show ?thesis
    by (simp add: parse_def Let_def getErrorLine_def length_split split: option.splits)
qed

text \<open>
  Claim C7. The text of two lines below is rejected at offset 8, on its second line: the
  outcome of \<open>parse\<close> has the line 2 and no column, where the claim asks for both and
  the caller of \<open>parse\<close> reads \<open>result.column\<close>. The second text is rejected on its
  third line at offset 1 of the trimmed text; the offset is applied to the text with its
  leading line breaks, and the line of the outcome is 2.
\<close>

theorem parse_failure_has_no_column:
  \<open>map_of (parse JSON_parse (''{"a": 1'' @ [CHR 0x0A] @ ''"b": 2}'')) ''success'' =
     Some (FBool False) \<and>
   map_of (parse JSON_parse (''{"a": 1'' @ [CHR 0x0A] @ ''"b": 2}'')) ''line'' =
     Some (FNumber 2) \<and>
   map_of (parse JSON_parse (''{"a": 1'' @ [CHR 0x0A] @ ''"b": 2}'')) ''column'' = None \<and>
   JSON_parse (trim ([CHR 0x0A, CHR 0x0A] @ ''{x'')) =
     Inl ''Unexpected token x in JSON at position 1'' \<and>
   map_of (parse JSON_parse ([CHR 0x0A, CHR 0x0A] @ ''{x'')) ''line'' = Some (FNumber 2) \<and>
   map_of (parse JSON_parse ([CHR 0x0A, CHR 0x0A] @ ''{x'')) ''column'' = None\<close>
  by code_simp

section \<open>The examples for a numeric field of an array element\<close>

lemma fold_access_step_prefix:
  "\<exists>x y z. fold access_step p (a, b, c) = (a @ x, b @ y, c @ z)"
proof (induction p arbitrary: a b c)
  case Nil
  show ?case by simp
next
  case (Cons s p)
  have "\<exists>a' b' c'. access_step s (a, b, c) = (a @ a', b @ b', c @ c')"
  proof (cases s)
    case (Key k)
    show ?thesis by (cases "is_identifier k") (simp_all add: access_step_def Key)
  next
    case (Idx j)
    show ?thesis by (simp add: access_step_def Idx)
  qed
  then obtain a' b' c' where step: "access_step s (a, b, c) = (a @ a', b @ b', c @ c')"
    by blast
  from Cons.IH [of "a @ a'" "b @ b'" "c @ c'"] obtain x y z where
    "fold access_step p (a @ a', b @ b', c @ c') = ((a @ a') @ x, (b @ b') @ y, (c @ c') @ z)"
    by blast
  with step have "fold access_step (s # p) (a, b, c) = (a @ (a' @ x), b @ (b' @ y), c @ (c' @ z))"
    by simp
  then show ?case by blast
qed

lemma dot_not_empty: "dot (generateAccessPath p) \<noteq> []"
proof (cases "p = []")
  case True
  then show ?thesis by (simp add: generateAccessPath_def)
next
  case False
  from fold_access_step_prefix [of p "''data''" "''data''" "''data''"] obtain x y z where
    "fold access_step p (''data'', ''data'', ''data'') = (''data'' @ x, ''data'' @ y, ''data'' @ z)"
    by blast
  with False show ?thesis by (simp add: generateAccessPath_def)
qed

lemma js_get_of_leaf: "\<not> is_container v \<Longrightarrow> js_get v s = Some w \<Longrightarrow> \<not> is_container w"
  by (cases v; cases s) (auto split: if_splits option.splits)

lemma leaf_reaches_no_array:
  "\<not> is_container v \<Longrightarrow> getValueAtPath_loop (Some v) q \<noteq> Inr (Some (JArray xs))"
proof (induction q arbitrary: v)
  case Nil
  then show ?case by auto
next
  case (Cons s q)
  show ?case
  proof (cases "js_get v s")
    case None
    then show ?thesis by (cases v; cases q) auto
  next
    case (Some w)
    with Cons.prems have "\<not> is_container w" by (rule js_get_of_leaf)
    then have "getValueAtPath_loop (Some w) q \<noteq> Inr (Some (JArray xs))" by (rule Cons.IH)
    with Some show ?thesis by (cases v) auto
  qed
qed

lemma reaches_array_truthy:
  assumes "getValueAtPath_loop (Some v) q = Inr (Some (JArray xs))"
  shows "truthy v"
proof -
  from assms leaf_reaches_no_array [of v q xs] have "is_container v" by blast
  then show ?thesis by (cases v) auto
qed

lemma detectArrayContext_loop_finds:
  "getValueAtPath_loop (Some cur) q = Inr (Some (JArray xs)) \<Longrightarrow>
   take (length q) (drop i path) = q \<Longrightarrow> i + length q < length path \<Longrightarrow>
   \<exists>m ctx. detectArrayContext_loop path i (Some cur) = Some ctx \<and> m \<le> length q \<and>
           arrayPath ctx = take (i + m) path \<and> propertyPath ctx = drop (Suc (i + m)) path \<and>
           is_array_result (getValueAtPath_loop (Some cur) (take m q)) \<and>
           (\<forall>j<m. \<not> is_array_result (getValueAtPath_loop (Some cur) (take j q)))"
proof (induction q arbitrary: cur i)
  case Nil
  then have "cur = JArray xs" and "i < length path" by simp_all
  then have "detectArrayContext_loop path i (Some cur) =
      Some \<lparr>isInArray = True, arrayPath = take i path, propertyPath = drop (i + 1) path,
            arrayData = xs, itemExample = (if length xs > 0 then xs ! 0 else JNull)\<rparr>"
    by (subst detectArrayContext_loop.simps) simp
  with \<open>cur = JArray xs\<close> show ?case
    by (intro exI [of _ 0]) (simp add: is_array_result_def)
next
  case (Cons s q)
  from Cons.prems(3) have lt: "i < length path" by simp
  from Cons.prems(2) lt have s: "path ! i = s" and rest: "take (length q) (drop (Suc i) path) = q"
    by (simp_all add: take_Suc_conv_app_nth drop_Suc hd_drop_conv_nth take_tl
        flip: Cons_nth_drop_Suc)
  show ?case
  proof (cases "\<exists>ys. cur = JArray ys")
    case True
    then obtain ys where ys: "cur = JArray ys" by blast
    with lt have "detectArrayContext_loop path i (Some cur) =
      Some \<lparr>isInArray = True, arrayPath = take i path, propertyPath = drop (i + 1) path,
            arrayData = ys, itemExample = (if length ys > 0 then ys ! 0 else JNull)\<rparr>"
      by (subst detectArrayContext_loop.simps) simp
    with ys show ?thesis by (intro exI [of _ 0]) (simp add: is_array_result_def)
  next
    case False
    then have here: "\<not> is_array_result (getValueAtPath_loop (Some cur) [])"
      by (cases cur) (simp_all add: is_array_result_def)
    from Cons.prems(1) have notnull: "cur \<noteq> JNull" by auto
    from Cons.prems(1) notnull have next_step:
      "getValueAtPath_loop (js_get cur s) q = Inr (Some (JArray xs))"
      by (cases cur) simp_all
    then obtain cur' where cur': "js_get cur s = Some cur'"
      by (cases "js_get cur s"; cases q) auto
    from notnull cur' have shift:
      "getValueAtPath_loop (Some cur) (s # t) = getValueAtPath_loop (Some cur') t" for t
      by (cases cur) simp_all
    from False notnull lt s cur'
    have unfold: "detectArrayContext_loop path i (Some cur) =
        detectArrayContext_loop path (Suc i) (Some cur')"
      by (subst detectArrayContext_loop.simps) (cases cur; simp)
    from next_step cur' have "getValueAtPath_loop (Some cur') q = Inr (Some (JArray xs))" by simp
    from Cons.IH [OF this rest] Cons.prems(3) obtain m ctx where
      found: "detectArrayContext_loop path (Suc i) (Some cur') = Some ctx" and m: "m \<le> length q" and
      paths: "arrayPath ctx = take (Suc i + m) path" "propertyPath ctx = drop (Suc (Suc i + m)) path" and
      arr: "is_array_result (getValueAtPath_loop (Some cur') (take m q))" and
      first: "\<forall>j<m. \<not> is_array_result (getValueAtPath_loop (Some cur') (take j q))"
      by auto
    have "\<not> is_array_result (getValueAtPath_loop (Some cur) (take j (s # q)))" if "j < Suc m" for j
    proof (cases j)
      case 0
      with here show ?thesis by simp
    next
      case (Suc j')
      with that first have "\<not> is_array_result (getValueAtPath_loop (Some cur') (take j' q))" by simp
      then show ?thesis unfolding Suc by (simp add: shift del: getValueAtPath_loop.simps)
    qed
    moreover from arr have "is_array_result (getValueAtPath_loop (Some cur) (take (Suc m) (s # q)))"
      by (simp add: shift del: getValueAtPath_loop.simps)
    ultimately have "\<forall>j<Suc m. \<not> is_array_result (getValueAtPath_loop (Some cur) (take j (s # q)))"
      and "is_array_result (getValueAtPath_loop (Some cur) (take (Suc m) (s # q)))" by blast+
    moreover from unfold found have "detectArrayContext_loop path i (Some cur) = Some ctx" by simp
    moreover from m have "Suc m \<le> length (s # q)" by simp
    moreover from paths have "arrayPath ctx = take (i + Suc m) path"
      "propertyPath ctx = drop (Suc (i + Suc m)) path" by simp_all
    ultimately show ?thesis by blast
  qed
qed

lemma numeric_examples:
  assumes "currentValue h = JNumber n"
  shows "(\<exists>ex \<in> set (generatePropertyInArrayExamples h numToString ctx doc).
            code ex =
              ''const filtered = '' @ dot (generateAccessPath (arrayPath ctx)) @
              ''.filter(item => item'' @ join [] (map property_access (propertyPath ctx)) @
              '' > '' @ numToString (if n \<noteq> 0 then n else 10) @ '');'') \<and>
         (\<exists>ex \<in> set (generatePropertyInArrayExamples h numToString ctx doc).
            code ex =
              ''const total = '' @ dot (generateAccessPath (arrayPath ctx)) @
              ''.reduce((sum, item) => sum + item'' @
              join [] (map property_access (propertyPath ctx)) @ '', 0);'')"
proof -
  let ?name = "if truthy_key (currentKey h) then seg_string (the (currentKey h))
               else seg_string (last (propertyPath ctx))"
  let ?filter = "\<lparr>title = pic_lens @ '' Filter by Property'',
          code = ''const filtered = '' @ dot (generateAccessPath (arrayPath ctx)) @
                 ''.filter(item => item'' @ join [] (map property_access (propertyPath ctx)) @
                 '' > '' @ numToString (if n \<noteq> 0 then n else 10) @ '');'',
          description = ''Filter items where '' @ ?name @
                 '' > '' @ numToString (if n \<noteq> 0 then n else 10)\<rparr>"
  let ?sum = "\<lparr>title = pic_chart @ '' Sum/Aggregate'',
          code = ''const total = '' @ dot (generateAccessPath (arrayPath ctx)) @
                 ''.reduce((sum, item) => sum + item'' @
                 join [] (map property_access (propertyPath ctx)) @ '', 0);'',
          description = ''Calculate total of all '' @ ?name @ '' values''\<rparr>"
  have mem: "?filter \<in> set (generatePropertyInArrayExamples h numToString ctx doc) \<and>
             ?sum \<in> set (generatePropertyInArrayExamples h numToString ctx doc)"
    using assms dot_not_empty [of "arrayPath ctx"]
    by (cases "propertyPath ctx = []") (simp_all add: generatePropertyInArrayExamples_def Let_def)
  have "\<exists>ex \<in> set (generatePropertyInArrayExamples h numToString ctx doc). code ex = code ?filter"
    using mem by blast
  moreover
  have "\<exists>ex \<in> set (generatePropertyInArrayExamples h numToString ctx doc). code ex = code ?sum"
    using mem by blast
  ultimately show ?thesis by simp
qed

text \<open>
  Claim C8, as the code has it. The selection is a path that leads to an array
  (\<open>pre\<close>), then an index, then at least one more segment, and the selected value is a
  number \<open>n\<close>. The examples then include a filter whose predicate compares the field
  with \<open>>\<close> against the selected number, or against 10 when the selected number is 0,
  and a sum that uses \<open>reduce\<close>. Both address the first array on the path, the one
  that its shortest prefix \<open>take k\<close> leads to, and in each of its items the segments
  that follow the index.
\<close>

theorem generateCode_numeric_field:
  assumes "currentPath h = pre @ ix # rest" and "rest \<noteq> []"
    and "getValueAtPath doc pre = Inr (Some (JArray xs))"
    and "currentValue h = JNumber n"
  shows "\<exists>k \<le> length pre.
           reaches_array doc (take k (currentPath h)) \<and>
           (\<forall>j<k. \<not> reaches_array doc (take j (currentPath h))) \<and>
           (\<exists>ex \<in> set (generateCode h numToString doc).
              code ex =
                ''const filtered = '' @ dot (generateAccessPath (take k (currentPath h))) @
                ''.filter(item => item'' @
                join [] (map property_access (drop (Suc k) (currentPath h))) @
                '' > '' @ numToString (if n \<noteq> 0 then n else 10) @ '');'') \<and>
           (\<exists>ex \<in> set (generateCode h numToString doc).
              code ex =
                ''const total = '' @ dot (generateAccessPath (take k (currentPath h))) @
                ''.reduce((sum, item) => sum + item'' @
                join [] (map property_access (drop (Suc k) (currentPath h))) @ '', 0);'')"
proof -
  let ?path = "currentPath h"
  from assms(3) have reach: "getValueAtPath_loop (Some doc) pre = Inr (Some (JArray xs))"
    by (simp add: getValueAtPath_def)
  then have tr: "truthy doc" by (rule reaches_array_truthy)
  from assms(1) have "take (length pre) (drop 0 ?path) = pre" by simp
  moreover from assms(1) have "0 + length pre < length ?path" by simp
  ultimately obtain k ctx where
    found: "detectArrayContext_loop ?path 0 (Some doc) = Some ctx" and
    k: "k \<le> length pre" and
    ap: "arrayPath ctx = take k ?path" and pp: "propertyPath ctx = drop (Suc k) ?path" and
    arr: "is_array_result (getValueAtPath_loop (Some doc) (take k pre))" and
    first: "\<forall>j<k. \<not> is_array_result (getValueAtPath_loop (Some doc) (take j pre))"
    using detectArrayContext_loop_finds [OF reach, of 0 ?path] by auto
  from k assms(1) have pre: "take j ?path = take j pre" if "j \<le> k" for j
    using that by simp
  from arr pre [of k] have arr': "reaches_array doc (take k ?path)"
    by (simp add: reaches_array_def getValueAtPath_def)
  from first pre have first': "\<forall>j<k. \<not> reaches_array doc (take j ?path)"
    by (simp add: reaches_array_def getValueAtPath_def)
  from assms(1,2) k have "Suc k < length ?path" by (cases rest) simp_all
  with pp have nonempty: "length (propertyPath ctx) > 0" by simp
  from assms(1) found have "detectArrayContext h doc = Some ctx"
    by (simp add: detectArrayContext_def)
  with assms(1) tr nonempty
  have gen: "generateCode h numToString doc = generatePropertyInArrayExamples h numToString ctx doc"
    by (simp add: generateCode_def)
  from numeric_examples [OF assms(4), of numToString ctx doc]
  have "(\<exists>ex \<in> set (generateCode h numToString doc).
              code ex =
                ''const filtered = '' @ dot (generateAccessPath (take k (currentPath h))) @
                ''.filter(item => item'' @
                join [] (map property_access (drop (Suc k) (currentPath h))) @
                '' > '' @ numToString (if n \<noteq> 0 then n else 10) @ '');'') \<and>
           (\<exists>ex \<in> set (generateCode h numToString doc).
              code ex =
                ''const total = '' @ dot (generateAccessPath (take k (currentPath h))) @
                ''.reduce((sum, item) => sum + item'' @
                join [] (map property_access (drop (Suc k) (currentPath h))) @ '', 0);'')"
    unfolding gen by (simp add: ap pp)
  with k arr' first' show ?thesis by blast
qed

theorem generateCode_numeric_field_witness:
  \<open>getValueAtPath (JObject [(''users'', JArray [JObject [(''age'', JNumber 30)]])]) [Key ''users''] =
     Inr (Some (JArray [JObject [(''age'', JNumber 30)]])) \<and>
   (\<exists>ex \<in> set (generateCode
        \<lparr>currentPath = [Key ''users'', Idx 0, Key ''age''], currentValue = JNumber 30,
         currentKey = Some (Key ''age''),
         jsonData = JObject [(''users'', JArray [JObject [(''age'', JNumber 30)]])]\<rparr>
        Number_toString (JObject [(''users'', JArray [JObject [(''age'', JNumber 30)]])])).
      code ex = ''const filtered = data.users.filter(item => item.age > 30);'') \<and>
   (\<exists>ex \<in> set (generateCode
        \<lparr>currentPath = [Key ''users'', Idx 0, Key ''age''], currentValue = JNumber 30,
         currentKey = Some (Key ''age''),
         jsonData = JObject [(''users'', JArray [JObject [(''age'', JNumber 30)]])]\<rparr>
        Number_toString (JObject [(''users'', JArray [JObject [(''age'', JNumber 30)]])])).
      code ex = ''const total = data.users.reduce((sum, item) => sum + item.age, 0);'')\<close>
proof -
  let ?doc = "JObject [(''users'', JArray [JObject [(''age'', JNumber 30)]])]"
  let ?h = "\<lparr>currentPath = [Key ''users'', Idx 0, Key ''age''], currentValue = JNumber 30,
             currentKey = Some (Key ''age''), jsonData = ?doc\<rparr>"
  have reach: "getValueAtPath ?doc [Key ''users''] = Inr (Some (JArray [JObject [(''age'', JNumber 30)]]))"
    by (simp add: getValueAtPath_def)
  have root: "\<not> reaches_array ?doc []"
    by (simp add: reaches_array_def is_array_result_def getValueAtPath_def)
  have arr: "dot (generateAccessPath [Key ''users'']) = ''data.users''"
    by code_simp
  have props: "join [] (map property_access [Key ''age'']) = ''.age''"
    by code_simp
  have num: "Number_toString 30 = ''30''"
    by code_simp
  from generateCode_numeric_field
    [of ?h "[Key ''users'']" "Idx 0" "[Key ''age'']" ?doc "[JObject [(''age'', JNumber 30)]]" 30
        Number_toString]
    reach
  obtain k where k: "k \<le> 1" and
    a: "reaches_array ?doc (take k [Key ''users'', Idx 0, Key ''age''])" and
    f: "\<exists>ex \<in> set (generateCode ?h Number_toString ?doc).
          code ex = ''const filtered = '' @
            dot (generateAccessPath (take k [Key ''users'', Idx 0, Key ''age''])) @
            ''.filter(item => item'' @
            join [] (map property_access (drop (Suc k) [Key ''users'', Idx 0, Key ''age''])) @
            '' > '' @ Number_toString 30 @ '');''" and
    t: "\<exists>ex \<in> set (generateCode ?h Number_toString ?doc).
          code ex = ''const total = '' @
            dot (generateAccessPath (take k [Key ''users'', Idx 0, Key ''age''])) @
            ''.reduce((sum, item) => sum + item'' @
            join [] (map property_access (drop (Suc k) [Key ''users'', Idx 0, Key ''age''])) @
            '', 0);''"
    by auto
  have k1: "k = 1"
  proof (rule ccontr)
    assume "k \<noteq> 1"
    with k have "k = 0" by simp
    with a root show False by simp
  qed
  from f t show ?thesis unfolding k1 using reach arr props num by simp
qed

text \<open>
  Claim C8 as stated fails where the selected number is 0: the one filter example then
  compares against 10, not against the selected number.
\<close>

theorem generateCode_zero_field:
  \<open>getValueAtPath (JObject [(''users'', JArray [JObject [(''age'', JNumber 0)]])])
     [Key ''users'', Idx 0, Key ''age''] = Inr (Some (JNumber 0)) \<and>
   map code
     (filter (\<lambda>ex. includes_str (code ex) ''.filter('')
        (generateCode
           \<lparr>currentPath = [Key ''users'', Idx 0, Key ''age''], currentValue = JNumber 0,
            currentKey = Some (Key ''age''),
            jsonData = JObject [(''users'', JArray [JObject [(''age'', JNumber 0)]])]\<rparr>
           Number_toString (JObject [(''users'', JArray [JObject [(''age'', JNumber 0)]])]))) =
     [''const filtered = data.users.filter(item => item.age > 10);'']\<close>
  by code_simp

end
